theory Spec2Isabelle
  imports Complex_Main "HOL-Library.Word" "HOL-Library.Multiset" "HOL-Library.AList"
begin

unbundle bit_operations_syntax

section \<open>Data model\<close>

text \<open>
  Shallow embedding of the tokenizer of \<^verbatim>\<open>src/sana_text_encoder.cpp\<close>.

  \<^item> \<^verbatim>\<open>std::string\<close> is a \<open>string\<close> (a list of 8-bit characters, i.e. bytes);
  \<^item> \<^verbatim>\<open>int32_t\<close> token ids are \<open>32 word\<close>; the cast \<^verbatim>\<open>(uint32_t)x\<close> is \<open>unat x\<close> and
    the literal \<^verbatim>\<open>-1\<close> is the word \<open>- 1\<close>;
  \<^item> \<^verbatim>\<open>std::map\<close> is an association list, read with \<open>map_of\<close> and written with
    \<open>AList.update\<close> (insert or assign); \<^verbatim>\<open>std::vector\<close> is a list;
  \<^item> \<^verbatim>\<open>float\<close> scores are values of the type \<open>float\<close> below: a number, an infinity or
    a NaN, with the comparisons \<^verbatim>\<open><\<close> and \<^verbatim>\<open>!=\<close> of the machine;
  \<^item> symbol indices (\<^verbatim>\<open>int\<close>) and merge ranks (\<^verbatim>\<open>int\<close>) are \<open>int\<close>, byte counts and
    offsets (\<^verbatim>\<open>size_t\<close>) are \<open>nat\<close>; texts are far shorter than \<open>2 ^ 31\<close> bytes, so
    that none of these wraps.
\<close>

type_synonym token_id = "32 word"

datatype Type = SPM | BPE

text \<open>
  A \<^verbatim>\<open>float\<close> as far as the code uses it: scores are copied from the file unchecked and
  compared with \<^verbatim>\<open><\<close> and \<^verbatim>\<open>!=\<close>. A value is a number, plus or minus infinity, or a NaN;
  the two zeros are the number 0, as they compare equal. Every \<^verbatim>\<open><\<close> with a NaN is false,
  every \<^verbatim>\<open>!=\<close> with a NaN is true.
\<close>

datatype float = Finite real | PlusInf | MinusInf | NaN

fun float_lt :: "float \<Rightarrow> float \<Rightarrow> bool" where
  "float_lt NaN _ = False"
| "float_lt _ NaN = False"
| "float_lt (Finite x) (Finite y) = (x < y)"
| "float_lt (Finite x) PlusInf = True"
| "float_lt (Finite x) MinusInf = False"
| "float_lt PlusInf _ = False"
| "float_lt MinusInf MinusInf = False"
| "float_lt MinusInf _ = True"

definition float_ne :: "float \<Rightarrow> float \<Rightarrow> bool" where
  "float_ne a b = (a = NaN \<or> b = NaN \<or> a \<noteq> b)"

record SanaVocab =
  token_to_id :: "(string \<times> token_id) list"
  id_to_token :: "string list"
  id_to_score :: "float list"
  bos_token_id :: token_id
  eos_token_id :: token_id
  pad_token_id :: token_id
  unk_token_id :: token_id
  type :: Type
  bpe_ranks :: "((string \<times> string) \<times> int) list"
  bpe_merges :: "string list"

text \<open>The default member initialisers of \<^verbatim>\<open>struct SanaVocab\<close>.\<close>

definition SanaVocab_default :: SanaVocab where
  "SanaVocab_default =
     \<lparr>token_to_id = [], id_to_token = [], id_to_score = [],
      bos_token_id = 0, eos_token_id = 1, pad_token_id = - 1, unk_token_id = 2,
      type = SPM, bpe_ranks = [], bpe_merges = []\<rparr>"

section \<open>Unicode utilities\<close>

text \<open>
  \<^verbatim>\<open>utf8_len_char(s, max_len)\<close>. The first argument is the byte sequence starting at the
  pointer \<^verbatim>\<open>s\<close>, up to the end of the string; at the end of a \<^verbatim>\<open>std::string\<close> the
  pointer reads the terminating NUL byte.
\<close>

definition utf8_len_char :: "string \<Rightarrow> nat \<Rightarrow> nat" where
  "utf8_len_char s max_len =
     (if max_len = 0 then 0
      else
        let c = (case s of [] \<Rightarrow> (0 :: 8 word) | x # _ \<Rightarrow> word_of_nat (of_char x)) in
        if c < 0x80 then 1
        else if max_len \<ge> 2 \<and> c AND 0xE0 = 0xC0 then 2
        else if max_len \<ge> 3 \<and> c AND 0xF0 = 0xE0 then 3
        else if max_len \<ge> 4 \<and> c AND 0xF8 = 0xF0 then 4
        else 0)"

text \<open>
  The loop that the source writes out three times (SPM fall-back, BPE bootstrap, BPE final
  pieces): walk the string from byte \<open>k\<close>; a byte that does not decode emits the unknown
  id (when set) and is skipped; a code point is looked up and emits its id, or the unknown
  id (when set).
\<close>

function emit_codepoints :: "SanaVocab \<Rightarrow> string \<Rightarrow> nat \<Rightarrow> token_id list" where
  "emit_codepoints v s k =
     (if k < length s then
        let char_len = utf8_len_char (drop k s) (length s - k) in
        if char_len = 0 then
          (if unk_token_id v \<noteq> - 1 then [unk_token_id v] else []) @ emit_codepoints v s (k + 1)
        else
          (case map_of (token_to_id v) (take char_len (drop k s)) of
             Some i \<Rightarrow> [i]
           | None \<Rightarrow> (if unk_token_id v \<noteq> - 1 then [unk_token_id v] else []))
          @ emit_codepoints v s (k + char_len)
      else [])"
  by pat_completeness auto
termination
  by (relation "measure (\<lambda>(v, s, k). length s - k)") auto

text \<open>
  The loop that splits a string into one piece per code point and silently skips a byte
  that does not decode (pre-tokenizer fall-backs, BPE piece splitting).
\<close>

function utf8_split :: "string \<Rightarrow> nat \<Rightarrow> string list" where
  "utf8_split s k =
     (if k < length s then
        let char_len = utf8_len_char (drop k s) (length s - k) in
        if char_len = 0 then utf8_split s (k + 1)
        else take char_len (drop k s) # utf8_split s (k + char_len)
      else [])"
  by pat_completeness auto
termination
  by (relation "measure (\<lambda>(s, k). length s - k)") auto

declare emit_codepoints.simps [simp del]
declare utf8_split.simps [simp del]

section \<open>SPM tokenization\<close>

text \<open>
  \<^verbatim>\<open>struct SanaSpmSymbol\<close>. The field \<^verbatim>\<open>text_ptr\<close> always points into the input text and
  is kept as the byte offset from its start.
\<close>

record SanaSpmSymbol =
  sym_prev :: int
  sym_next :: int
  sym_text_ptr :: nat
  sym_n :: nat

record SanaSpmBigram =
  bigram_left :: int
  bigram_right :: int
  bigram_score :: float
  bigram_size :: nat

text \<open>
  \<^verbatim>\<open>SanaSpmBigram::comparator\<close>: the "less than" of the priority queue.
\<close>

definition comparator :: "SanaSpmBigram \<Rightarrow> SanaSpmBigram \<Rightarrow> bool" where
  "comparator l r =
     (if float_ne (bigram_score l) (bigram_score r)
      then float_lt (bigram_score l) (bigram_score r)
      else bigram_left l > bigram_left r)"

text \<open>
  \<^verbatim>\<open>std::priority_queue<SanaSpmBigram, std::vector<SanaSpmBigram>, comparator>\<close>. The
  queue is its vector \<^verbatim>\<open>c\<close>, kept as a binary heap: \<^verbatim>\<open>push\<close> is \<^verbatim>\<open>c.push_back\<close> followed by
  \<^verbatim>\<open>std::push_heap\<close>, \<^verbatim>\<open>pop\<close> is \<^verbatim>\<open>std::pop_heap\<close> followed by \<^verbatim>\<open>c.pop_back\<close>, and \<^verbatim>\<open>top\<close> is
  \<^verbatim>\<open>c.front()\<close>. The two heap algorithms are library code; they are modelled as the GNU
  C++ library writes them (\<^verbatim>\<open>bits/stl_heap.h\<close>), so that the order in which candidates
  leave the queue is the order of the program also among candidates that the comparator
  does not tell apart, and also where a NaN score makes the comparator no ordering at all.
\<close>

type_synonym queue = "SanaSpmBigram list"

text \<open>
  \<^verbatim>\<open>std::__push_heap(first, holeIndex, topIndex, value, comp)\<close>: the hole moves up while
  its parent is less than the value. For the hole 0 the source computes the parent as
  \<^verbatim>\<open>(0 - 1) / 2\<close>, which is 0 in C++, where the division truncates, as it is here on
  the natural numbers.
\<close>

function push_heap_hole :: "queue \<Rightarrow> nat \<Rightarrow> nat \<Rightarrow> SanaSpmBigram \<Rightarrow> queue" where
  "push_heap_hole first holeIndex topIndex val =
     (let parent = (holeIndex - 1) div 2 in
      if holeIndex > topIndex \<and> comparator (first ! parent) val
      then push_heap_hole (first[holeIndex := first ! parent]) parent topIndex val
      else first[holeIndex := val])"
  by pat_completeness auto
termination
  by (relation "measure (\<lambda>(first, holeIndex, topIndex, val). holeIndex)") auto

declare push_heap_hole.simps [simp del]

text \<open>\<^verbatim>\<open>std::push_heap(first, last, comp)\<close> on the whole vector, which is not empty.\<close>

definition push_heap :: "queue \<Rightarrow> queue" where
  "push_heap c = push_heap_hole c (length c - 1) 0 (c ! (length c - 1))"

text \<open>
  The loop of \<^verbatim>\<open>std::__adjust_heap\<close>: the hole moves down to the child that is not less
  than the other one. It returns the vector, the hole and \<^verbatim>\<open>secondChild\<close>.
\<close>

function adjust_heap_loop :: "queue \<Rightarrow> nat \<Rightarrow> nat \<Rightarrow> nat \<Rightarrow> queue \<times> nat \<times> nat" where
  "adjust_heap_loop first holeIndex secondChild len =
     (if secondChild < (len - 1) div 2 then
        let child = 2 * (secondChild + 1);
            child = (if comparator (first ! child) (first ! (child - 1))
                     then child - 1 else child)
        in adjust_heap_loop (first[holeIndex := first ! child]) child child len
      else (first, holeIndex, secondChild))"
  by pat_completeness auto
termination
  by (relation "measure (\<lambda>(first, holeIndex, secondChild, len). len - secondChild)")
    (auto simp: Let_def)

declare adjust_heap_loop.simps [simp del]

text \<open>
  \<^verbatim>\<open>std::__adjust_heap(first, holeIndex, len, value, comp)\<close>: after the loop, a last
  child without a sibling moves up, and the value is pushed up from the hole. It is called
  with \<open>len\<close> at least 1, so that \<^verbatim>\<open>len - 1\<close> is not negative, and \<^verbatim>\<open>(len - 2) / 2\<close> is
  read only for an even \<open>len\<close>, which is then at least 2.
\<close>

definition adjust_heap :: "queue \<Rightarrow> nat \<Rightarrow> nat \<Rightarrow> SanaSpmBigram \<Rightarrow> queue" where
  "adjust_heap first holeIndex len val =
     (let topIndex = holeIndex in
      case adjust_heap_loop first holeIndex holeIndex len of
        (first, holeIndex, secondChild) \<Rightarrow>
          if even len \<and> secondChild = (len - 2) div 2
          then
            let secondChild = 2 * (secondChild + 1)
            in push_heap_hole (first[holeIndex := first ! (secondChild - 1)])
                 (secondChild - 1) topIndex val
          else push_heap_hole first holeIndex topIndex val)"

text \<open>
  \<^verbatim>\<open>std::pop_heap(first, last, comp)\<close> on the whole vector: the first element goes to the
  last place and the element that was there is sifted down from the root.
\<close>

definition pop_heap :: "queue \<Rightarrow> queue" where
  "pop_heap c =
     (if length c > 1 then
        let result = length c - 1; val = c ! result
        in adjust_heap (c[result := c ! 0]) 0 result val
      else c)"

text \<open>
  The three operations of the queue; \<open>queue_top\<close> and \<open>queue_pop\<close> are applied to a
  non-empty queue only, as in the source.
\<close>

definition queue_push :: "queue \<Rightarrow> SanaSpmBigram \<Rightarrow> queue" where
  "queue_push q b = push_heap (q @ [b])"

definition queue_top :: "queue \<Rightarrow> SanaSpmBigram" where
  "queue_top q = hd q"

definition queue_pop :: "queue \<Rightarrow> queue" where
  "queue_pop q = butlast (pop_heap q)"

text \<open>The elements of a queue in the order in which repeated top/pop delivers them.\<close>

function pop_all :: "queue \<Rightarrow> SanaSpmBigram list" where
  "pop_all q = (if q = [] then [] else queue_top q # pop_all (queue_pop q))"
  by pat_completeness auto

text \<open>
  The test \<^verbatim>\<open>(size_t)idx >= symbols.size()\<close> on an \<^verbatim>\<open>int\<close> index: a negative index
  becomes a value of at least \<open>2 ^ 64 - 2 ^ 31\<close>, which no vector size reaches.
\<close>

definition index_out_of_range :: "int \<Rightarrow> 'a list \<Rightarrow> bool" where
  "index_out_of_range idx xs = (idx < 0 \<or> nat idx \<ge> length xs)"

text \<open>The segmentation loop of \<^verbatim>\<open>tokenize_spm\<close>: one symbol per decoded code point.\<close>

function spm_segment ::
  "string \<Rightarrow> int \<Rightarrow> nat \<Rightarrow> SanaSpmSymbol list \<Rightarrow> SanaSpmSymbol list" where
  "spm_segment text current_symbol_idx current_offs symbols =
     (if current_offs < length text then
        let char_len = utf8_len_char (drop current_offs text) (length text - current_offs) in
        if char_len = 0 then spm_segment text current_symbol_idx (current_offs + 1) symbols
        else
          spm_segment text (current_symbol_idx + 1) (current_offs + char_len)
            (symbols @ [\<lparr>sym_prev = current_symbol_idx - 1, sym_next = - 1,
                         sym_text_ptr = current_offs, sym_n = char_len\<rparr>])
      else symbols)"
  by pat_completeness auto
termination
  by (relation "measure (\<lambda>(text, idx, offs, symbols). length text - offs)") auto

declare spm_segment.simps [simp del]

text \<open>The loop that sets \<^verbatim>\<open>symbols[i].next\<close>.\<close>

definition spm_link_next :: "SanaSpmSymbol list \<Rightarrow> SanaSpmSymbol list" where
  "spm_link_next symbols =
     map (\<lambda>i. (symbols ! i)\<lparr>sym_next := (if i < length symbols - 1 then int i + 1 else - 1)\<rparr>)
       [0..<length symbols]"

text \<open>The lambda \<^verbatim>\<open>try_add_bigram_spm\<close>; it returns the work queue.\<close>

definition try_add_bigram_spm ::
  "SanaVocab \<Rightarrow> string \<Rightarrow> SanaSpmSymbol list \<Rightarrow> queue \<Rightarrow> int \<Rightarrow> int \<Rightarrow> queue" where
  "try_add_bigram_spm v text symbols work_queue left_idx right_idx =
     (if left_idx = - 1 \<or> right_idx = - 1 then work_queue
      else if index_out_of_range left_idx symbols \<or> index_out_of_range right_idx symbols
      then work_queue
      else
        let left_s = symbols ! nat left_idx; right_s = symbols ! nat right_idx in
        if sym_n left_s = 0 \<or> sym_n right_s = 0 then work_queue
        else
          let piece = take (sym_n left_s + sym_n right_s) (drop (sym_text_ptr left_s) text) in
          (case map_of (token_to_id v) piece of
             None \<Rightarrow> work_queue
           | Some i \<Rightarrow>
               if unat i < length (id_to_score v)
               then queue_push work_queue
                      \<lparr>bigram_left = left_idx, bigram_right = right_idx,
                       bigram_score = id_to_score v ! unat i, bigram_size = length piece\<rparr>
               else work_queue))"

text \<open>The loop that seeds the queue with every adjacent pair.\<close>

definition spm_initial_queue :: "SanaVocab \<Rightarrow> string \<Rightarrow> SanaSpmSymbol list \<Rightarrow> queue" where
  "spm_initial_queue v text symbols =
     fold (\<lambda>i q. try_add_bigram_spm v text symbols q (int i) (int i + 1))
       [0..<length symbols - 1] []"

text \<open>
  The staleness check of the merge loop on a popped bigram whose two indices are in range.
\<close>

definition bigram_stale :: "SanaSpmSymbol list \<Rightarrow> SanaSpmBigram \<Rightarrow> bool" where
  "bigram_stale symbols bigram =
     (let left_sym = symbols ! nat (bigram_left bigram);
          right_sym = symbols ! nat (bigram_right bigram)
      in sym_n left_sym = 0 \<or> sym_n right_sym = 0
         \<or> sym_n left_sym + sym_n right_sym \<noteq> bigram_size bigram)"

text \<open>
  What the merge loop does to the symbols for a bigram that passed the checks. The
  references \<^verbatim>\<open>left_sym\<close> and \<^verbatim>\<open>right_sym\<close> are written through one assignment after the
  other, so that the model is right also where the two indices coincide.
\<close>

definition spm_apply_merge :: "SanaSpmSymbol list \<Rightarrow> SanaSpmBigram \<Rightarrow> SanaSpmSymbol list" where
  "spm_apply_merge symbols bigram =
     (let l = nat (bigram_left bigram); r = nat (bigram_right bigram);
          s1 = symbols[l := (symbols ! l)\<lparr>sym_n := sym_n (symbols ! l) + sym_n (symbols ! r)\<rparr>];
          s2 = s1[r := (s1 ! r)\<lparr>sym_n := 0\<rparr>];
          s3 = s2[l := (s2 ! l)\<lparr>sym_next := sym_next (s2 ! r)\<rparr>];
          right_next = sym_next (s3 ! r)
      in if right_next \<noteq> - 1 \<and> \<not> index_out_of_range right_next s3
         then s3[nat right_next := (s3 ! nat right_next)\<lparr>sym_prev := bigram_left bigram\<rparr>]
         else s3)"

text \<open>One iteration of \<^verbatim>\<open>while (!work_queue.empty())\<close>, on a non-empty queue.\<close>

definition spm_merge_step ::
  "SanaVocab \<Rightarrow> string \<Rightarrow> SanaSpmSymbol list \<times> queue \<Rightarrow> SanaSpmSymbol list \<times> queue" where
  "spm_merge_step v text state =
     (let symbols = fst state; work_queue = snd state;
          bigram = queue_top work_queue;
          q1 = queue_pop work_queue
      in if index_out_of_range (bigram_left bigram) symbols
            \<or> index_out_of_range (bigram_right bigram) symbols
         then (symbols, q1)
         else if bigram_stale symbols bigram then (symbols, q1)
         else
           let symbols' = spm_apply_merge symbols bigram;
               left_sym = symbols' ! nat (bigram_left bigram);
               q2 = try_add_bigram_spm v text symbols' q1 (sym_prev left_sym) (bigram_left bigram);
               q3 = try_add_bigram_spm v text symbols' q2 (bigram_left bigram) (sym_next left_sym)
           in (symbols', q3))"

text \<open>
  Termination of the two queue loops: a pop shortens the queue by one element, a merge
  absorbs one live symbol and pushes at most two candidates.
\<close>

definition spm_alive :: "SanaSpmSymbol list \<Rightarrow> nat set" where
  "spm_alive symbols = {i. i < length symbols \<and> sym_n (symbols ! i) > 0}"

lemma length_push_heap_hole [simp]: "length (push_heap_hole first h t v) = length first"
proof (induction first h t v rule: push_heap_hole.induct)
  case (1 first h t v)
  show ?case
    by (subst push_heap_hole.simps) (use 1 in \<open>auto simp: Let_def\<close>)
qed

lemma adjust_heap_loop_stop:
  "\<not> sc < (len - 1) div 2 \<Longrightarrow> adjust_heap_loop first h sc len = (first, h, sc)"
  by (subst adjust_heap_loop.simps) simp

lemma adjust_heap_loop_step:
  assumes "sc < (len - 1) div 2"
    and "c = (if comparator (first ! (2 * (sc + 1))) (first ! (2 * (sc + 1) - 1))
              then 2 * (sc + 1) - 1 else 2 * (sc + 1))"
  shows "adjust_heap_loop first h sc len = adjust_heap_loop (first[h := first ! c]) c c len"
  using assms(1) unfolding assms(2) by (subst adjust_heap_loop.simps) (simp add: Let_def)

lemma length_adjust_heap_loop:
  "adjust_heap_loop first h sc len = (f', h', sc') \<Longrightarrow> length f' = length first"
proof (induction first h sc len rule: adjust_heap_loop.induct)
  case (1 first h sc len)
  show ?case
  proof (cases "sc < (len - 1) div 2")
    case False
    from adjust_heap_loop_stop [OF this] "1.prems" show ?thesis by simp
  next
    case True
    define c where "c = (if comparator (first ! (2 * (sc + 1))) (first ! (2 * (sc + 1) - 1))
              then 2 * (sc + 1) - 1 else 2 * (sc + 1))"
    from "1.prems" have "adjust_heap_loop (first[h := first ! c]) c c len = (f', h', sc')"
      by (simp only: adjust_heap_loop_step [OF True c_def])
    from "1.IH" [OF True refl c_def this] show ?thesis by simp
  qed
qed

lemma length_adjust_heap [simp]: "length (adjust_heap first h len v) = length first"
proof -
  obtain f' h' sc' where e: "adjust_heap_loop first h h len = (f', h', sc')"
    by (cases "adjust_heap_loop first h h len")
  from length_adjust_heap_loop [OF e] show ?thesis
    by (simp add: adjust_heap_def e Let_def)
qed

lemma length_pop_heap [simp]: "length (pop_heap c) = length c"
  by (simp add: pop_heap_def Let_def)

lemma length_queue_push [simp]: "length (queue_push q b) = Suc (length q)"
  by (simp add: queue_push_def push_heap_def)

lemma length_queue_pop: "q \<noteq> [] \<Longrightarrow> Suc (length (queue_pop q)) = length q"
  by (simp add: queue_pop_def)

lemma length_try_add_bigram_spm:
  "length (try_add_bigram_spm v text symbols q l r) \<le> Suc (length q)"
  by (simp add: try_add_bigram_spm_def Let_def split: option.splits)

lemma length_spm_apply_merge [simp]: "length (spm_apply_merge symbols b) = length symbols"
  by (simp add: spm_apply_merge_def Let_def)

lemma sym_n_spm_apply_merge:
  assumes "\<not> index_out_of_range (bigram_left b) symbols"
    and "\<not> index_out_of_range (bigram_right b) symbols"
    and "i < length symbols"
  shows "sym_n (spm_apply_merge symbols b ! i) =
     (if i = nat (bigram_right b) then 0
      else if i = nat (bigram_left b)
      then sym_n (symbols ! nat (bigram_left b)) + sym_n (symbols ! nat (bigram_right b))
      else sym_n (symbols ! i))"
  using assms
  by (simp add: spm_apply_merge_def Let_def index_out_of_range_def nth_list_update)

lemma spm_alive_merge:
  assumes l: "\<not> index_out_of_range (bigram_left b) symbols"
    and r: "\<not> index_out_of_range (bigram_right b) symbols"
    and st: "\<not> bigram_stale symbols b"
  shows "spm_alive (spm_apply_merge symbols b) = spm_alive symbols - {nat (bigram_right b)}"
    and "nat (bigram_right b) \<in> spm_alive symbols"
  using assms
  by (auto simp: spm_alive_def sym_n_spm_apply_merge bigram_stale_def Let_def
      index_out_of_range_def split: if_splits)

lemma card_spm_alive_merge:
  assumes l: "\<not> index_out_of_range (bigram_left b) symbols"
    and r: "\<not> index_out_of_range (bigram_right b) symbols"
    and st: "\<not> bigram_stale symbols b"
  shows "Suc (card (spm_alive (spm_apply_merge symbols b))) = card (spm_alive symbols)"
proof -
  have "finite (spm_alive symbols)" by (simp add: spm_alive_def)
  then have "Suc (card (spm_alive symbols - {nat (bigram_right b)})) = card (spm_alive symbols)"
    using spm_alive_merge(2) [OF assms] by (rule card_Suc_Diff1)
  then show ?thesis
    by (simp only: spm_alive_merge(1) [OF assms])
qed

lemma spm_merge_step_decreases:
  assumes "snd state \<noteq> []"
  shows "2 * card (spm_alive (fst (spm_merge_step v text state)))
           + length (snd (spm_merge_step v text state))
       < 2 * card (spm_alive (fst state)) + length (snd state)"
proof -
  obtain symbols q where s: "state = (symbols, q)" by (cases state)
  with assms have q: "q \<noteq> []" by simp
  note lp = length_queue_pop [OF q]
  show ?thesis
  proof (cases "index_out_of_range (bigram_left (queue_top q)) symbols
            \<or> index_out_of_range (bigram_right (queue_top q)) symbols
            \<or> bigram_stale symbols (queue_top q)")
    case True
    then show ?thesis using lp by (auto simp: s spm_merge_step_def Let_def)
  next
    case False
    then have c: "Suc (card (spm_alive (spm_apply_merge symbols (queue_top q))))
        = card (spm_alive symbols)"
      using card_spm_alive_merge by blast
    let ?s' = "spm_apply_merge symbols (queue_top q)"
    let ?ls = "?s' ! nat (bigram_left (queue_top q))"
    let ?q2 = "try_add_bigram_spm v text ?s' (queue_pop q) (sym_prev ?ls)
                 (bigram_left (queue_top q))"
    let ?q3 = "try_add_bigram_spm v text ?s' ?q2 (bigram_left (queue_top q)) (sym_next ?ls)"
    have "length ?q2 \<le> Suc (length (queue_pop q))"
      by (rule length_try_add_bigram_spm)
    moreover have "length ?q3 \<le> Suc (length ?q2)"
      by (rule length_try_add_bigram_spm)
    ultimately have "length ?q3 \<le> Suc (Suc (length (queue_pop q)))"
      by linarith
    moreover have "spm_merge_step v text state = (?s', ?q3)"
      using False by (simp add: s spm_merge_step_def Let_def)
    ultimately show ?thesis
      using c lp by (simp add: s)
  qed
qed

termination pop_all
proof (relation "measure length")
  show "wf (measure length)" by simp
next
  fix q :: queue
  assume "q \<noteq> []"
  from length_queue_pop [OF this]
  show "(queue_pop q, q) \<in> measure length" by simp
qed

declare pop_all.simps [simp del]

text \<open>The loop \<^verbatim>\<open>while (!work_queue.empty())\<close>; it returns the symbols.\<close>

function spm_merge_loop ::
  "SanaVocab \<Rightarrow> string \<Rightarrow> SanaSpmSymbol list \<times> queue \<Rightarrow> SanaSpmSymbol list" where
  "spm_merge_loop v text state =
     (if snd state = [] then fst state
      else spm_merge_loop v text (spm_merge_step v text state))"
  by pat_completeness auto
termination
proof (relation "measure (\<lambda>(v, t, state).
    2 * card (spm_alive (fst state)) + length (snd state))")
  show "wf (measure (\<lambda>(v, t, state).
    2 * card (spm_alive (fst state)) + length (snd state)))"
    by simp
next
  fix v :: SanaVocab and t :: string and state :: "SanaSpmSymbol list \<times> queue"
  assume "snd state \<noteq> []"
  from spm_merge_step_decreases [OF this, of v t]
  show "((v, t, spm_merge_step v t state), v, t, state)
       \<in> measure (\<lambda>(v, t, state). 2 * card (spm_alive (fst state)) + length (snd state))"
    unfolding in_measure prod.case .
qed

declare spm_merge_loop.simps [simp del]

text \<open>What the output loop emits for one symbol it visits.\<close>

definition spm_emit_symbol :: "SanaVocab \<Rightarrow> string \<Rightarrow> SanaSpmSymbol \<Rightarrow> token_id list" where
  "spm_emit_symbol v text symbol =
     (if sym_n symbol > 0 then
        let final_piece = take (sym_n symbol) (drop (sym_text_ptr symbol) text) in
        (case map_of (token_to_id v) final_piece of
           Some i \<Rightarrow> [i]
         | None \<Rightarrow> emit_codepoints v final_piece 0)
      else [])"

text \<open>
  The output loop \<^verbatim>\<open>for (int i = 0; i != -1; i = symbols[i].next)\<close>. Nothing in the
  loop itself bounds the walk along the links, so it is a partial function: \<open>None\<close> is
  a walk that never ends or that reads outside the vector.
\<close>

partial_function (option) spm_emit ::
  "SanaVocab \<Rightarrow> string \<Rightarrow> SanaSpmSymbol list \<Rightarrow> int \<Rightarrow> token_id list \<Rightarrow> token_id list option"
  where
  "spm_emit v text symbols i output_tokens =
     (if i = - 1 then Some output_tokens
      else if index_out_of_range i symbols then None
      else spm_emit v text symbols (sym_next (symbols ! nat i))
             (output_tokens @ spm_emit_symbol v text (symbols ! nat i)))"

declare spm_emit.simps [code]

definition tokenize_spm :: "SanaVocab \<Rightarrow> string \<Rightarrow> token_id list option" where
  "tokenize_spm v text =
     (if text = [] \<or> id_to_score v = [] then
        Some (if text \<noteq> [] \<and> unk_token_id v \<noteq> - 1 then [unk_token_id v] else [])
      else
        let symbols = spm_segment text 0 0 [] in
        if symbols = [] then Some []
        else
          let symbols = spm_link_next symbols;
              work_queue = spm_initial_queue v text symbols;
              symbols = spm_merge_loop v text (symbols, work_queue)
          in spm_emit v text symbols 0 [])"

section \<open>BPE tokenization\<close>

text \<open>
  \<^verbatim>\<open>bpe_pre_tokenize_gpt2\<close>. The matcher of \<^verbatim>\<open>std::regex\<close> is library code; the model
  takes what \<^verbatim>\<open>std::sregex_token_iterator\<close> delivers for the text, the list of matched
  substrings from left to right, as the parameter \<open>matches\<close>.
\<close>

definition bpe_pre_tokenize_gpt2 :: "string list \<Rightarrow> string \<Rightarrow> string list" where
  "bpe_pre_tokenize_gpt2 matches text =
     (if text = [] then []
      else
        let result = filter (\<lambda>sub_match. length sub_match > 0) matches;
            last_pos = sum_list (map length matches);
            result = (if last_pos < length text
                      then result @ utf8_split (drop last_pos text) 0 else result)
        in if result = [] \<and> text \<noteq> [] then result @ utf8_split text 0 else result)"

text \<open>
  The scan \<^verbatim>\<open>for (j = 0; j < sub_tokens.size() - 1; ++j)\<close> for the best pair; \<open>ranks\<close>
  is the lookup \<^verbatim>\<open>bpe_ranks.find\<close>.
\<close>

function bpe_scan ::
  "((string \<times> string) \<rightharpoonup> int) \<Rightarrow> string list \<Rightarrow> nat \<Rightarrow> int \<times> int \<Rightarrow> int \<times> int" where
  "bpe_scan ranks sub_tokens j best =
     (if j < length sub_tokens - 1 then
        (case ranks (sub_tokens ! j, sub_tokens ! (j + 1)) of
           Some rank \<Rightarrow>
             if fst best = - 1 \<or> rank < fst best
             then bpe_scan ranks sub_tokens (j + 1) (rank, int j)
             else bpe_scan ranks sub_tokens (j + 1) best
         | None \<Rightarrow> bpe_scan ranks sub_tokens (j + 1) best)
      else best)"
  by pat_completeness auto
termination
  by (relation "measure (\<lambda>(ranks, sub_tokens, j, best). length sub_tokens - 1 - j)") auto

declare bpe_scan.simps [simp del]

text \<open>
  One pass of the merge loop on at least two pieces: \<open>None\<close> when no adjacent pair has a
  rank (the loop then ends), otherwise the pieces after \<^verbatim>\<open>erase\<close> and \<^verbatim>\<open>insert\<close>.
\<close>

definition bpe_merge_once ::
  "((string \<times> string) \<rightharpoonup> int) \<Rightarrow> string list \<Rightarrow> string list option" where
  "bpe_merge_once ranks sub_tokens =
     (let best = bpe_scan ranks sub_tokens 0 (- 1, - 1);
          best_rank = fst best; merge_idx = nat (snd best)
      in if best_rank \<noteq> - 1 then
           let merged_token_str = sub_tokens ! merge_idx @ sub_tokens ! (merge_idx + 1)
           in Some (take merge_idx sub_tokens @ [merged_token_str]
                    @ drop (merge_idx + 2) sub_tokens)
         else None)"

lemma bpe_scan_index:
  assumes "fst best \<noteq> - 1 \<Longrightarrow> 0 \<le> snd best \<and> nat (snd best) < length sub_tokens - 1"
    and "fst (bpe_scan ranks sub_tokens j best) \<noteq> - 1"
  shows "0 \<le> snd (bpe_scan ranks sub_tokens j best)
    \<and> nat (snd (bpe_scan ranks sub_tokens j best)) < length sub_tokens - 1"
  using assms
proof (induction ranks sub_tokens j best rule: bpe_scan.induct)
  case (1 ranks sub_tokens j best)
  show ?case
  proof (cases "j < length sub_tokens - 1")
    case False
    with "1.prems" show ?thesis by (simp add: bpe_scan.simps)
  next
    case True
    show ?thesis
    proof (cases "ranks (sub_tokens ! j, sub_tokens ! (j + 1))")
      case None
      with True "1.IH"(1) "1.prems" show ?thesis
        by (simp add: bpe_scan.simps [of ranks sub_tokens j])
    next
      case (Some rank)
      show ?thesis
      proof (cases "fst best = - 1 \<or> rank < fst best")
        case new: True
        have "0 \<le> snd (bpe_scan ranks sub_tokens (j + 1) (rank, int j))
          \<and> nat (snd (bpe_scan ranks sub_tokens (j + 1) (rank, int j))) < length sub_tokens - 1"
          using "1.IH"(2) [OF True Some new] True "1.prems"(2) Some new
          by (simp add: bpe_scan.simps [of ranks sub_tokens j])
        with True Some new show ?thesis
          by (simp add: bpe_scan.simps [of ranks sub_tokens j])
      next
        case old: False
        have "0 \<le> snd (bpe_scan ranks sub_tokens (j + 1) best)
          \<and> nat (snd (bpe_scan ranks sub_tokens (j + 1) best)) < length sub_tokens - 1"
          using "1.IH"(3) [OF True Some old] True "1.prems" Some old
          by (simp add: bpe_scan.simps [of ranks sub_tokens j])
        with True Some old show ?thesis
          by (simp add: bpe_scan.simps [of ranks sub_tokens j])
      qed
    qed
  qed
qed

lemma length_bpe_merge_once:
  assumes "bpe_merge_once ranks sub_tokens = Some sub_tokens'"
  shows "Suc (length sub_tokens') = length sub_tokens"
proof -
  let ?best = "bpe_scan ranks sub_tokens 0 (- 1, - 1)"
  from assms have ne: "fst ?best \<noteq> - 1"
    by (auto simp: bpe_merge_once_def Let_def split: if_splits)
  have "0 \<le> snd ?best \<and> nat (snd ?best) < length sub_tokens - 1"
    by (rule bpe_scan_index) (use ne in simp_all)
  with assms ne show ?thesis
    by (auto simp: bpe_merge_once_def Let_def)
qed

text \<open>
  The loop \<^verbatim>\<open>while (merged_in_iteration && sub_tokens.size() > 1)\<close>: the flag is true on
  entry and afterwards says whether the last pass merged a pair.
\<close>

function bpe_merge_loop :: "((string \<times> string) \<rightharpoonup> int) \<Rightarrow> string list \<Rightarrow> string list" where
  "bpe_merge_loop ranks sub_tokens =
     (if length sub_tokens > 1 then
        (case bpe_merge_once ranks sub_tokens of
           Some sub_tokens' \<Rightarrow> bpe_merge_loop ranks sub_tokens'
         | None \<Rightarrow> sub_tokens)
      else sub_tokens)"
  by pat_completeness auto
termination
  by (relation "measure (\<lambda>(ranks, sub_tokens). length sub_tokens)")
    (auto dest: length_bpe_merge_once)

declare bpe_merge_loop.simps [simp del]

text \<open>The final loop over the pieces of one pre-token.\<close>

definition bpe_emit_piece :: "SanaVocab \<Rightarrow> string \<Rightarrow> token_id list" where
  "bpe_emit_piece v st =
     (case map_of (token_to_id v) st of
        Some i \<Rightarrow> [i]
      | None \<Rightarrow> emit_codepoints v st 0)"

text \<open>The body of \<^verbatim>\<open>for (const std::string& word : words)\<close>: the ids of one pre-token.\<close>

definition bpe_word :: "SanaVocab \<Rightarrow> string \<Rightarrow> token_id list" where
  "bpe_word v word =
     (if word = [] then []
      else
        (case map_of (token_to_id v) word of
           Some i \<Rightarrow> [i]
         | None \<Rightarrow>
             let sub_tokens = utf8_split word 0 in
             if sub_tokens = [] then []
             else concat (map (bpe_emit_piece v)
                    (bpe_merge_loop (map_of (bpe_ranks v)) sub_tokens))))"

text \<open>
  \<^verbatim>\<open>SanaVocab::tokenize_bpe\<close>. Past the bootstrap shortcut the pre-tokenizer runs
  \<^verbatim>\<open>std::regex\<close> over the whole text, unguarded. \<open>regex text\<close> is the outcome of that
  run: \<open>Some\<close> of the matches, or \<open>None\<close> when the matcher does not deliver them. The
  matcher is library code and it can fail: the one of the GNU C++ library recurses once
  per character of a run and exhausts the stack on a long run of letters, and it may throw
  \<^verbatim>\<open>std::regex_error\<close>, which nothing in the tokenizer catches. The result \<open>None\<close> of
  the tokenizer is that failure: the call does not return a token sequence.
\<close>

definition tokenize_bpe ::
  "(string \<Rightarrow> string list option) \<Rightarrow> SanaVocab \<Rightarrow> string \<Rightarrow> token_id list option" where
  "tokenize_bpe regex v text =
     (if text = [] then Some []
      else if bpe_ranks v = [] \<and> length (id_to_token v) < 256
      then Some (emit_codepoints v text 0)
      else
        (case regex text of
           None \<Rightarrow> None
         | Some matches \<Rightarrow>
             Some (concat (map (bpe_word v) (bpe_pre_tokenize_gpt2 matches text)))))"

section \<open>The facade\<close>

text \<open>
  \<^verbatim>\<open>SanaVocab::tokenize\<close>. The result \<open>None\<close> is a call that does not return a token
  sequence: the output walk of the SPM path does not end, or the matcher of the BPE path
  fails.
\<close>

definition tokenize ::
  "(string \<Rightarrow> string list option) \<Rightarrow> SanaVocab \<Rightarrow> string \<Rightarrow> bool \<Rightarrow> bool
     \<Rightarrow> token_id list option" where
  "tokenize regex v text add_bos add_eos =
     (let output =
        (if add_bos \<and> bos_token_id v \<noteq> - 1 \<and> unat (bos_token_id v) < length (id_to_token v)
         then [bos_token_id v] else [])
      in
        (case (if type v = SPM then tokenize_spm v text
               else tokenize_bpe regex v text) of
           None \<Rightarrow> None
         | Some tokens \<Rightarrow>
             Some (output @ tokens
               @ (if add_eos \<and> eos_token_id v \<noteq> - 1
                     \<and> unat (eos_token_id v) < length (id_to_token v)
                  then [eos_token_id v] else []))))"

section \<open>Loading the vocabulary\<close>

text \<open>
  The GGUF reader is library code. Its context is modelled by what the loader asks of it:
  for each key whether it is present (\<^verbatim>\<open>gguf_find_key\<close> returning \<^verbatim>\<open>-1\<close> is \<open>None\<close>) and
  its value. An array of strings is a list whose elements may be null pointers
  (\<open>None\<close>); the score array is its element count and its data pointer, which may be
  null; an integer-valued key carries its type tag.
\<close>

datatype gguf_value = GGUF_TYPE_UINT32 "32 word" | GGUF_TYPE_INT32 "32 word" | GGUF_TYPE_OTHER

record gguf_context =
  gguf_tokens :: "string option list option"
  gguf_model :: "string option"
  gguf_merges :: "string option list option"
  gguf_scores :: "(nat \<times> float list option) option"
  gguf_bos_token_id :: "gguf_value option"
  gguf_eos_token_id :: "gguf_value option"
  gguf_unk_token_id :: "gguf_value option"
  gguf_padding_token_id :: "gguf_value option"
  gguf_pad_token_id :: "gguf_value option"

text \<open>\<^verbatim>\<open>std::vector::resize\<close> with the value-initialised element \<open>d\<close>.\<close>

definition resize :: "nat \<Rightarrow> 'a \<Rightarrow> 'a list \<Rightarrow> 'a list" where
  "resize n d xs = take n xs @ replicate (n - length xs) d"

text \<open>One iteration of the loop over the merges array.\<close>

definition load_merge :: "string option list \<Rightarrow> nat \<Rightarrow> SanaVocab \<Rightarrow> SanaVocab" where
  "load_merge merges i v =
     (let merges' = (case merges ! i of
                       Some merge_str_c \<Rightarrow> (bpe_merges v)[i := merge_str_c]
                     | None \<Rightarrow> bpe_merges v);
          m = merges' ! i;
          space_pos = length (takeWhile (\<lambda>c. c \<noteq> CHR '' '') m)
      in v\<lparr>bpe_merges := merges',
           bpe_ranks :=
             (if space_pos < length m \<and> space_pos > 0 \<and> space_pos < length m - 1
              then AList.update (take space_pos m, drop (space_pos + 1) m)
                     (sint (word_of_nat i :: 32 word)) (bpe_ranks v)
              else bpe_ranks v)\<rparr>)"

text \<open>
  The body of the loop over the token array for a non-null token string. \<open>scores\<close> is
  \<open>None\<close> when \<^verbatim>\<open>scores_idx\<close> is \<^verbatim>\<open>-1\<close>, otherwise the data pointer of the score array.
\<close>

definition load_token ::
  "float list option option \<Rightarrow> nat \<Rightarrow> string \<Rightarrow> SanaVocab \<Rightarrow> SanaVocab" where
  "load_token scores i token_text_c v =
     (let v1 = v\<lparr>id_to_token := (id_to_token v)[i := token_text_c],
                 token_to_id := AList.update token_text_c (word_of_nat i) (token_to_id v)\<rparr>
      in case scores of
           Some (Some score_data) \<Rightarrow>
             if i < length (id_to_score v1)
             then v1\<lparr>id_to_score := (id_to_score v1)[i := score_data ! i]\<rparr>
             else v1
         | _ \<Rightarrow> v1)"

text \<open>
  The loop over the token array from index \<open>i\<close> on, over the tokens not yet read; a null
  token string makes the loader return \<^verbatim>\<open>false\<close>.
\<close>

fun load_tokens ::
  "float list option option \<Rightarrow> string option list \<Rightarrow> nat \<Rightarrow> SanaVocab \<Rightarrow> bool \<times> SanaVocab" where
  "load_tokens scores [] i v = (True, v)"
| "load_tokens scores (None # tokens) i v = (False, v)"
| "load_tokens scores (Some token_text_c # tokens) i v =
     load_tokens scores tokens (i + 1) (load_token scores i token_text_c v)"

text \<open>The lambda \<^verbatim>\<open>load_special_token\<close>.\<close>

definition load_special_token :: "gguf_value option \<Rightarrow> token_id \<Rightarrow> token_id" where
  "load_special_token kv default_val_if_not_found =
     (case kv of
        Some (GGUF_TYPE_UINT32 x) \<Rightarrow> x
      | Some (GGUF_TYPE_INT32 x) \<Rightarrow> x
      | Some GGUF_TYPE_OTHER \<Rightarrow> default_val_if_not_found
      | None \<Rightarrow> default_val_if_not_found)"

text \<open>
  The block of the loader that reads the model type and, for a BPE model, the merges.
\<close>

definition load_model :: "gguf_context \<Rightarrow> SanaVocab \<Rightarrow> SanaVocab" where
  "load_model ctx_gguf v =
     (case gguf_model ctx_gguf of
        None \<Rightarrow> v
      | Some model_name \<Rightarrow>
          if model_name = ''gpt2'' \<or> model_name = ''gpt-2'' \<or> model_name = ''bpe''
          then
            (case gguf_merges ctx_gguf of
               Some merges \<Rightarrow>
                 let n_merges = length merges mod 2 ^ 32 in
                 fold (load_merge merges) [0..<n_merges]
                   (v\<lparr>type := BPE, bpe_merges := resize n_merges [] (bpe_merges v)\<rparr>)
             | None \<Rightarrow> v\<lparr>type := BPE\<rparr>)
          else v\<lparr>type := SPM\<rparr>)"

text \<open>
  The block that looks for the score array: it returns what \<^verbatim>\<open>scores_idx\<close> stands for
  afterwards (\<open>None\<close> for \<^verbatim>\<open>-1\<close>, otherwise the data pointer of the array) and the object.
\<close>

definition load_scores ::
  "gguf_context \<Rightarrow> nat \<Rightarrow> SanaVocab \<Rightarrow> float list option option \<times> SanaVocab" where
  "load_scores ctx_gguf n_vocab_gguf v =
     (case gguf_scores ctx_gguf of
        None \<Rightarrow> (None, v)
      | Some (scores_n, score_data) \<Rightarrow>
          if type v = SPM then
            (if scores_n = n_vocab_gguf
             then (Some score_data, v\<lparr>id_to_score := resize n_vocab_gguf (Finite 0) (id_to_score v)\<rparr>)
             else (None, v))
          else (Some score_data, v))"

text \<open>The block that reads the four special token ids.\<close>

definition load_special_tokens :: "gguf_context \<Rightarrow> SanaVocab \<Rightarrow> SanaVocab" where
  "load_special_tokens ctx_gguf v =
     (let pad_kv = (case gguf_padding_token_id ctx_gguf of
                      None \<Rightarrow> gguf_pad_token_id ctx_gguf
                    | Some kv \<Rightarrow> Some kv)
      in v\<lparr>bos_token_id := load_special_token (gguf_bos_token_id ctx_gguf) (- 1),
           eos_token_id := load_special_token (gguf_eos_token_id ctx_gguf) (- 1),
           unk_token_id := load_special_token (gguf_unk_token_id ctx_gguf) (- 1),
           pad_token_id :=
             (case pad_kv of
                None \<Rightarrow> - 1
              | Some kv \<Rightarrow> load_special_token (Some kv) (pad_token_id v))\<rparr>)"

text \<open>
  \<^verbatim>\<open>SanaVocab::load_from_gguf\<close>, a member function: it takes the vocabulary object as it
  is and returns the result flag with the object as it leaves it. The token count is
  held in a \<^verbatim>\<open>uint32_t\<close>.
\<close>

definition load_from_gguf :: "gguf_context \<Rightarrow> SanaVocab \<Rightarrow> bool \<times> SanaVocab" where
  "load_from_gguf ctx_gguf v =
     (case gguf_tokens ctx_gguf of
        None \<Rightarrow> (False, v)
      | Some tokens \<Rightarrow>
          let v1 = load_model ctx_gguf v;
              n_vocab_gguf = length tokens mod 2 ^ 32;
              v2 = v1\<lparr>id_to_token := resize n_vocab_gguf [] (id_to_token v1)\<rparr>;
              scores_state = load_scores ctx_gguf n_vocab_gguf v2;
              loaded = load_tokens (fst scores_state) (take n_vocab_gguf tokens) 0
                         (snd scores_state)
          in if \<not> fst loaded then (False, snd loaded)
             else (True, load_special_tokens ctx_gguf (snd loaded)))"

section \<open>Notions for stating and proving the properties\<close>

subsection \<open>The candidate queue of the SPM merge loop\<close>

text \<open>
  Candidate \<open>a\<close> outranks candidate \<open>b\<close>: a strictly higher score, or the same score and
  a smaller left index. The comparator of the queue says exactly that its second argument
  outranks its first.
\<close>

definition outranks :: "SanaSpmBigram \<Rightarrow> SanaSpmBigram \<Rightarrow> bool" where
  "outranks a b =
     (float_lt (bigram_score b) (bigram_score a)
      \<or> (\<not> float_ne (bigram_score a) (bigram_score b) \<and> bigram_left a < bigram_left b))"

text \<open>
  The heap property of the first \<open>n\<close> elements of a vector: no element is less than its
  child. The invariant of the queue is the heap property of the whole vector, for
  candidates whose scores are not NaN.
\<close>

definition is_heap_upto :: "nat \<Rightarrow> queue \<Rightarrow> bool" where
  "is_heap_upto n xs = (\<forall>i. 0 < i \<and> i < n \<longrightarrow> \<not> comparator (xs ! ((i - 1) div 2)) (xs ! i))"

definition no_nan :: "queue \<Rightarrow> bool" where
  "no_nan xs = (\<forall>x \<in> set xs. bigram_score x \<noteq> NaN)"

definition heap_inv :: "queue \<Rightarrow> bool" where
  "heap_inv q = (is_heap_upto (length q) q \<and> no_nan q)"

text \<open>
  The states of a queue into which no candidate with a NaN score was ever pushed: the
  empty queue, and what \<^verbatim>\<open>push\<close> and \<^verbatim>\<open>pop\<close> make of such a state.
\<close>

inductive queue_states :: "queue \<Rightarrow> bool" where
  empty: "queue_states []"
| push: "queue_states q \<Longrightarrow> bigram_score b \<noteq> NaN \<Longrightarrow> queue_states (queue_push q b)"
| pop: "queue_states q \<Longrightarrow> q \<noteq> [] \<Longrightarrow> queue_states (queue_pop q)"

text \<open>Three candidates pushed in an order that is not the order of their ranks.\<close>

definition queue_example :: queue where
  "queue_example =
     queue_push (queue_push (queue_push []
       \<lparr>bigram_left = 2, bigram_right = 3, bigram_score = Finite 1, bigram_size = 2\<rparr>)
       \<lparr>bigram_left = 0, bigram_right = 1, bigram_score = Finite 1, bigram_size = 2\<rparr>)
       \<lparr>bigram_left = 1, bigram_right = 2, bigram_score = Finite 2, bigram_size = 2\<rparr>"

text \<open>
  Four candidates that the comparator does not tell apart: the same score and the same
  left index, with the sizes 10 to 13 in the order of the pushes.
\<close>

definition queue_equivalent :: queue where
  "queue_equivalent =
     queue_push (queue_push (queue_push (queue_push []
       \<lparr>bigram_left = 0, bigram_right = 1, bigram_score = Finite 1, bigram_size = 10\<rparr>)
       \<lparr>bigram_left = 0, bigram_right = 1, bigram_score = Finite 1, bigram_size = 11\<rparr>)
       \<lparr>bigram_left = 0, bigram_right = 1, bigram_score = Finite 1, bigram_size = 12\<rparr>)
       \<lparr>bigram_left = 0, bigram_right = 1, bigram_score = Finite 1, bigram_size = 13\<rparr>"

text \<open>
  The test of section 8 of the specification: four symbols, and a vocabulary in which the
  merges at the positions (0, 1) and (2, 3) have the same score.
\<close>

definition store_tie :: SanaVocab where
  "store_tie =
     SanaVocab_default\<lparr>
       token_to_id := [(''a'', 0), (''b'', 1), (''c'', 2), (''d'', 3), (''ab'', 4), (''cd'', 5)],
       id_to_token := [''a'', ''b'', ''c'', ''d'', ''ab'', ''cd''],
       id_to_score := [Finite 0, Finite 0, Finite 0, Finite 0, Finite 1, Finite 1],
       unk_token_id := - 1\<rparr>"

text \<open>
  A store over the letters \<open>a\<close> to \<open>f\<close> in which the score of the pair \<open>bc\<close> is a NaN;
  the pairs \<open>ab\<close>, \<open>cd\<close>, \<open>de\<close> and \<open>ef\<close> have the scores 5, 1, 3 and 2.
\<close>

definition store_nan :: SanaVocab where
  "store_nan =
     SanaVocab_default\<lparr>
       token_to_id := [(''a'', 0), (''b'', 1), (''c'', 2), (''d'', 3), (''e'', 4), (''f'', 5),
                       (''ab'', 6), (''bc'', 7), (''cd'', 8), (''de'', 9), (''ef'', 10)],
       id_to_token := [''a'', ''b'', ''c'', ''d'', ''e'', ''f'', ''ab'', ''bc'', ''cd'', ''de'',
                       ''ef''],
       id_to_score := [Finite 0, Finite 0, Finite 0, Finite 0, Finite 0, Finite 0,
                       Finite 5, NaN, Finite 1, Finite 3, Finite 2],
       unk_token_id := - 1\<rparr>"

subsection \<open>The facade on the empty text\<close>

text \<open>
  Three matchers for the examples: one that finds no match, one that finds the whole text
  as a single match, as the pattern does on a text that is one run of letters, and one
  that fails.
\<close>

definition matches_nothing :: "string \<Rightarrow> string list option" where
  "matches_nothing t = Some []"

definition matches_whole :: "string \<Rightarrow> string list option" where
  "matches_whole t = Some [t]"

definition matches_fails :: "string \<Rightarrow> string list option" where
  "matches_fails t = None"

text \<open>A store in which the begin-of-sequence id resolves and the end-of-sequence id is unset.\<close>

definition store_bos_only :: SanaVocab where
  "store_bos_only = SanaVocab_default\<lparr>id_to_token := [''a''], eos_token_id := - 1\<rparr>"

subsection \<open>SPM tokenization without segmentation\<close>

text \<open>Two SPM stores with the one token \<open>a\<close>: without scores and unknown id, and with both.\<close>

definition store_no_scores :: SanaVocab where
  "store_no_scores =
     SanaVocab_default\<lparr>token_to_id := [(''a'', 0)], id_to_token := [''a''],
       unk_token_id := - 1\<rparr>"

definition store_scored :: SanaVocab where
  "store_scored =
     SanaVocab_default\<lparr>token_to_id := [(''a'', 0)], id_to_token := [''a''],
       id_to_score := [Finite 0], unk_token_id := 0\<rparr>"

subsection \<open>The staleness check of the SPM merge loop\<close>

text \<open>Three one-byte symbols, a candidate that is up to date and one that is stale.\<close>

definition symbols_example :: "SanaSpmSymbol list" where
  "symbols_example =
     [\<lparr>sym_prev = - 1, sym_next = 1, sym_text_ptr = 0, sym_n = 1\<rparr>,
      \<lparr>sym_prev = 0, sym_next = 2, sym_text_ptr = 1, sym_n = 1\<rparr>,
      \<lparr>sym_prev = 1, sym_next = - 1, sym_text_ptr = 2, sym_n = 1\<rparr>]"

definition bigram_fresh :: SanaSpmBigram where
  "bigram_fresh =
     \<lparr>bigram_left = 0, bigram_right = 1, bigram_score = Finite 1, bigram_size = 2\<rparr>"

definition bigram_outdated :: SanaSpmBigram where
  "bigram_outdated =
     \<lparr>bigram_left = 0, bigram_right = 1, bigram_score = Finite 1, bigram_size = 3\<rparr>"

subsection \<open>The BPE bootstrap shortcut\<close>

text \<open>
  The claim's per-code-point sequence: each code point of the text (the pieces that decode,
  in order) is mapped to its vocabulary id, or to the unknown id when it is unmapped and
  the unknown id is set, and dropped when the unknown id is unset.
\<close>

definition codepoint_ids :: "SanaVocab \<Rightarrow> string \<Rightarrow> token_id list" where
  "codepoint_ids v cp =
     (case map_of (token_to_id v) cp of
        Some i \<Rightarrow> [i]
      | None \<Rightarrow> (if unk_token_id v \<noteq> - 1 then [unk_token_id v] else []))"

definition per_codepoint_ids :: "SanaVocab \<Rightarrow> string \<Rightarrow> token_id list" where
  "per_codepoint_ids v text = concat (map (codepoint_ids v) (utf8_split text 0))"

text \<open>
  The walk over the text as the decoder sees it: \<open>Some\<close> a code point, or \<open>None\<close> for
  a byte on which decoding returns length 0 (it is skipped).
\<close>

function utf8_units :: "string \<Rightarrow> nat \<Rightarrow> string option list" where
  "utf8_units s k =
     (if k < length s then
        let char_len = utf8_len_char (drop k s) (length s - k) in
        if char_len = 0 then None # utf8_units s (k + 1)
        else Some (take char_len (drop k s)) # utf8_units s (k + char_len)
      else [])"
  by pat_completeness auto
termination
  by (relation "measure (\<lambda>(s, k). length s - k)") auto

declare utf8_units.simps [simp del]

definition unit_ids :: "SanaVocab \<Rightarrow> string option \<Rightarrow> token_id list" where
  "unit_ids v u =
     (case u of
        Some cp \<Rightarrow> codepoint_ids v cp
      | None \<Rightarrow> (if unk_token_id v \<noteq> - 1 then [unk_token_id v] else []))"

text \<open>A BPE store with two tokens and no merges; its unknown id is 2.\<close>

definition store_bootstrap :: SanaVocab where
  "store_bootstrap =
     SanaVocab_default\<lparr>type := BPE, token_to_id := [(''a'', 0), (''b'', 1)],
       id_to_token := [''a'', ''b'']\<rparr>"

subsection \<open>The BPE whole-word shortcut\<close>

text \<open>
  A BPE store in which the merge ranks alone would assemble \<open>hello\<close> from \<open>he\<close> and
  \<open>llo\<close>.
\<close>

definition store_hello :: SanaVocab where
  "store_hello =
     SanaVocab_default\<lparr>type := BPE,
       token_to_id := [(''h'', 0), (''e'', 1), (''l'', 2), (''o'', 3), (''he'', 4),
                       (''llo'', 5), (''hello'', 6), (''lo'', 7)],
       id_to_token := [''h'', ''e'', ''l'', ''o'', ''he'', ''llo'', ''hello'', ''lo''],
       bpe_ranks := [((''h'', ''e''), 0), ((''l'', ''o''), 1), ((''l'', ''lo''), 2)]\<rparr>"

subsection \<open>The BPE merge scan\<close>

text \<open>
  The invariant of the scan before position \<open>j\<close>: either no pair so far has a rank and
  the best rank is still \<open>-1\<close>, or the best is the leftmost pair of least rank so far.
\<close>

definition scan_inv ::
  "((string \<times> string) \<rightharpoonup> int) \<Rightarrow> string list \<Rightarrow> nat \<Rightarrow> int \<times> int \<Rightarrow> bool" where
  "scan_inv ranks toks j best =
     (if fst best = - 1 then \<forall>j' < j. ranks (toks ! j', toks ! (j' + 1)) = None
      else 0 \<le> snd best \<and> nat (snd best) < j
        \<and> ranks (toks ! nat (snd best), toks ! (nat (snd best) + 1)) = Some (fst best)
        \<and> (\<forall>j' < j. \<forall>r'. ranks (toks ! j', toks ! (j' + 1)) = Some r' \<longrightarrow>
              fst best \<le> r' \<and> (r' = fst best \<longrightarrow> nat (snd best) \<le> j')))"

text \<open>The pair \<open>(a, b)\<close> occurs twice in \<open>a b a b\<close>.\<close>

definition ranks_ab :: "(string \<times> string) \<rightharpoonup> int" where
  "ranks_ab = map_of [((''b'', ''a''), 3), ((''a'', ''b''), 0)]"

subsection \<open>Duplicate tokens in the loader\<close>

text \<open>A token array in which \<open>a\<close> occurs at the indices 0 and 2.\<close>

definition ctx_duplicates :: gguf_context where
  "ctx_duplicates =
     \<lparr>gguf_tokens = Some [Some ''a'', Some ''b'', Some ''a''], gguf_model = None,
      gguf_merges = None, gguf_scores = None, gguf_bos_token_id = None,
      gguf_eos_token_id = None, gguf_unk_token_id = None, gguf_padding_token_id = None,
      gguf_pad_token_id = None\<rparr>"

subsection \<open>SPM tokenization on a scored store: the merge loop and the output\<close>

text \<open>The bytes a symbol stands for.\<close>

definition sym_piece :: "string \<Rightarrow> SanaSpmSymbol \<Rightarrow> string" where
  "sym_piece text symbol = take (sym_n symbol) (drop (sym_text_ptr symbol) text)"

text \<open>
  The invariant of the merge loop on the links. Symbol 0 is live; the successor of a live
  symbol is \<open>-1\<close> or a live symbol further right; no two live symbols share a successor;
  and a live symbol's predecessor, where it is a live symbol, lies further left and has
  this symbol as its successor.
\<close>

definition links_inv :: "SanaSpmSymbol list \<Rightarrow> bool" where
  "links_inv symbols =
     (0 \<in> spm_alive symbols
      \<and> (\<forall>i \<in> spm_alive symbols.
            sym_next (symbols ! i) = - 1
            \<or> (int i < sym_next (symbols ! i) \<and> nat (sym_next (symbols ! i)) \<in> spm_alive symbols))
      \<and> (\<forall>i \<in> spm_alive symbols. \<forall>i' \<in> spm_alive symbols.
            sym_next (symbols ! i) = sym_next (symbols ! i') \<longrightarrow>
            sym_next (symbols ! i) \<noteq> - 1 \<longrightarrow> i = i')
      \<and> (\<forall>i \<in> spm_alive symbols.
            0 \<le> sym_prev (symbols ! i) \<longrightarrow> nat (sym_prev (symbols ! i)) \<in> spm_alive symbols \<longrightarrow>
            sym_prev (symbols ! i) < int i
            \<and> sym_next (symbols ! nat (sym_prev (symbols ! i))) = int i))"

text \<open>
  What holds of every candidate in the queue: its left index is below its right index, the
  text of its recorded size at its left symbol is a vocabulary entry, and while both its
  symbols are live the right one is the successor of the left one.
\<close>

definition cand_ok :: "SanaVocab \<Rightarrow> string \<Rightarrow> SanaSpmSymbol list \<Rightarrow> SanaSpmBigram \<Rightarrow> bool" where
  "cand_ok v text symbols c =
     (bigram_left c < bigram_right c
      \<and> (\<not> index_out_of_range (bigram_left c) symbols \<longrightarrow>
           take (bigram_size c) (drop (sym_text_ptr (symbols ! nat (bigram_left c))) text)
             \<in> dom (map_of (token_to_id v)))
      \<and> (0 \<le> bigram_left c \<longrightarrow> nat (bigram_left c) \<in> spm_alive symbols \<longrightarrow>
           nat (bigram_right c) \<in> spm_alive symbols \<longrightarrow>
           sym_next (symbols ! nat (bigram_left c)) = bigram_right c))"

text \<open>
  The invariant on the pieces, against the symbols the loop started from: a live symbol
  stands for a vocabulary entry, or it still has its first length and successor.
\<close>

definition pieces_inv ::
  "SanaVocab \<Rightarrow> string \<Rightarrow> SanaSpmSymbol list \<Rightarrow> SanaSpmSymbol list \<Rightarrow> bool" where
  "pieces_inv v text symbols0 symbols =
     (length symbols = length symbols0
      \<and> (\<forall>i<length symbols0. sym_text_ptr (symbols ! i) = sym_text_ptr (symbols0 ! i))
      \<and> (\<forall>i \<in> spm_alive symbols.
            sym_piece text (symbols ! i) \<in> dom (map_of (token_to_id v))
            \<or> (sym_n (symbols ! i) = sym_n (symbols0 ! i)
               \<and> sym_next (symbols ! i) = sym_next (symbols0 ! i))))"

definition spm_inv ::
  "SanaVocab \<Rightarrow> string \<Rightarrow> SanaSpmSymbol list \<Rightarrow> SanaSpmSymbol list \<times> queue \<Rightarrow> bool" where
  "spm_inv v text symbols0 state =
     (links_inv (fst state) \<and> pieces_inv v text symbols0 (fst state)
      \<and> (\<forall>c \<in> set (snd state). cand_ok v text (fst state) c))"

text \<open>What the segmentation loop establishes for every symbol it has created.\<close>

definition seg_ok :: "string \<Rightarrow> SanaSpmSymbol list \<Rightarrow> bool" where
  "seg_ok text symbols =
     (\<forall>i<length symbols. sym_prev (symbols ! i) = int i - 1 \<and> 0 < sym_n (symbols ! i)
        \<and> sym_text_ptr (symbols ! i) < length text)"

subsection \<open>Non-empty output\<close>

text \<open>
  A string that decodes as one code point in front of any continuation: the pieces into
  which the splitting loop cuts a string are of this kind.
\<close>

definition is_codepoint :: "string \<Rightarrow> bool" where
  "is_codepoint c =
     (c \<noteq> [] \<and> (\<forall>rest. utf8_len_char (c @ rest) (length c + length rest) = length c))"

text \<open>
  The invariant of the BPE merge loop: the pieces are the code points of the pre-token,
  grouped into non-empty runs.
\<close>

definition grouping :: "string list \<Rightarrow> string list \<Rightarrow> bool" where
  "grouping cps toks =
     (\<exists>groups. toks = map concat groups \<and> concat groups = cps \<and> [] \<notin> set groups)"

text \<open>The claim's exception: no code point of the text is a vocabulary entry.\<close>

definition every_codepoint_unmapped :: "SanaVocab \<Rightarrow> string \<Rightarrow> bool" where
  "every_codepoint_unmapped v text = (\<forall>cp \<in> set (utf8_split text 0). map_of (token_to_id v) cp = None)"

section \<open>The candidate queue of the SPM merge loop\<close>

subsection \<open>The comparator\<close>

text \<open>
  On scores that are not NaN the comparator is a strict weak ordering; asymmetry holds for
  all scores, transitivity needs the score in the middle to be a number.
\<close>

lemma float_lt_irrefl: "\<not> float_lt a a"
  by (cases a) simp_all

lemma float_lt_asym: "float_lt a b \<Longrightarrow> \<not> float_lt b a"
  by (cases a; cases b) simp_all

lemma float_lt_trans: "float_lt a b \<Longrightarrow> float_lt b c \<Longrightarrow> float_lt a c"
  by (cases a; cases b; cases c) simp_all

lemma float_lt_total: "a \<noteq> NaN \<Longrightarrow> b \<noteq> NaN \<Longrightarrow> float_lt a b \<or> a = b \<or> float_lt b a"
  by (cases a; cases b) auto

lemma comparator_irrefl: "\<not> comparator a a"
  by (simp add: comparator_def float_lt_irrefl)

lemma comparator_asym: "comparator a b \<Longrightarrow> \<not> comparator b a"
  using float_lt_asym [of "bigram_score a" "bigram_score b"]
  by (auto simp: comparator_def float_ne_def split: if_splits)

lemma comparator_trans:
  assumes "bigram_score b \<noteq> NaN" and "comparator a b" and "comparator b c"
  shows "comparator a c"
  using assms float_lt_trans [of "bigram_score a" "bigram_score b" "bigram_score c"]
    float_lt_irrefl [of "bigram_score a"]
  by (auto simp: comparator_def float_ne_def split: if_splits)

lemma comparator_neg_trans:
  assumes "bigram_score a \<noteq> NaN" and "bigram_score b \<noteq> NaN" and "bigram_score c \<noteq> NaN"
    and "\<not> comparator a b" and "\<not> comparator b c"
  shows "\<not> comparator a c"
  using assms float_lt_trans [of "bigram_score c" "bigram_score b" "bigram_score a"]
    float_lt_total [of "bigram_score a" "bigram_score b"]
    float_lt_total [of "bigram_score b" "bigram_score c"]
    float_lt_asym [of "bigram_score a" "bigram_score c"]
    float_lt_irrefl [of "bigram_score a"]
  by (auto simp: comparator_def float_ne_def split: if_splits)

lemma comparator_outranks: "comparator a b = outranks b a"
  by (auto simp: comparator_def outranks_def float_ne_def float_lt_irrefl)

lemma outranks_irrefl: "\<not> outranks a a"
  by (simp add: comparator_outranks [symmetric] comparator_irrefl)

subsection \<open>The heap algorithms keep the elements\<close>

lemma nth_push_heap_hole: "h < i \<Longrightarrow> push_heap_hole first h t v ! i = first ! i"
proof (induction first h t v rule: push_heap_hole.induct)
  case (1 first h t v)
  show ?case
  proof (cases "h > t \<and> comparator (first ! ((h - 1) div 2)) v")
    case True
    then have "(h - 1) div 2 < i" using "1.prems" by linarith
    from "1.IH" [OF refl True this] True "1.prems" show ?thesis
      by (subst push_heap_hole.simps) (simp add: Let_def)
  next
    case False
    with "1.prems" show ?thesis
      by (subst push_heap_hole.simps) (auto simp: Let_def)
  qed
qed

lemma mset_update_swap:
  "i < length xs \<Longrightarrow> j < length xs \<Longrightarrow> i \<noteq> j \<Longrightarrow>
   mset (xs[i := xs ! j, j := v]) = mset (xs[i := v])"
  by (simp add: mset_update nth_list_update)

lemma mset_push_heap_hole:
  "h < length first \<Longrightarrow> mset (push_heap_hole first h t v) = mset (first[h := v])"
proof (induction first h t v rule: push_heap_hole.induct)
  case (1 first h t v)
  show ?case
  proof (cases "h > t \<and> comparator (first ! ((h - 1) div 2)) v")
    case True
    let ?p = "(h - 1) div 2"
    from True have p: "?p < h" by linarith
    with "1.prems" have pl: "?p < length (first[h := first ! ?p])" by simp
    from "1.IH" [OF refl True pl] True
    have "mset (push_heap_hole first h t v) = mset (first[h := first ! ?p, ?p := v])"
      by (subst push_heap_hole.simps) (simp add: Let_def)
    also have "\<dots> = mset (first[h := v])"
      using "1.prems" p by (intro mset_update_swap) simp_all
    finally show ?thesis .
  next
    case False
    then show ?thesis
      by (subst push_heap_hole.simps) (auto simp: Let_def)
  qed
qed

lemma larger_child:
  assumes "sc < (len - 1) div 2"
    and "c = (if comparator (first ! (2 * (sc + 1))) (first ! (2 * (sc + 1) - 1))
              then 2 * (sc + 1) - 1 else 2 * (sc + 1))"
  shows "c < len" and "sc < c" and "(c - 1) div 2 = sc"
    and "\<And>i. 0 < i \<Longrightarrow> (i - 1) div 2 = sc \<Longrightarrow> \<not> comparator (first ! c) (first ! i)"
proof -
  from assms(1) have l: "2 * sc + 2 < len" by linarith
  have c: "c = 2 * sc + 1 \<or> c = 2 * sc + 2" unfolding assms(2) by simp
  with l show "c < len" "sc < c" "(c - 1) div 2 = sc" by auto
  fix i :: nat assume "0 < i" "(i - 1) div 2 = sc"
  then have "i = 2 * sc + 1 \<or> i = 2 * sc + 2" by linarith
  then show "\<not> comparator (first ! c) (first ! i)"
    unfolding assms(2) by (auto simp: comparator_irrefl comparator_asym)
qed

lemma adjust_heap_loop_props:
  assumes "adjust_heap_loop first h sc len = (f', h', sc')"
    and "h = sc" and "sc < len" and "len \<le> length first"
  shows "h' = sc' \<and> sc' < len \<and> \<not> sc' < (len - 1) div 2
    \<and> (\<forall>i \<ge> len. f' ! i = first ! i) \<and> mset (f'[h' := v]) = mset (first[h := v])"
  using assms
proof (induction first h sc len rule: adjust_heap_loop.induct)
  case (1 first h sc len)
  show ?case
  proof (cases "sc < (len - 1) div 2")
    case False
    from adjust_heap_loop_stop [OF this] "1.prems" False show ?thesis by auto
  next
    case True
    define c where "c = (if comparator (first ! (2 * (sc + 1))) (first ! (2 * (sc + 1) - 1))
              then 2 * (sc + 1) - 1 else 2 * (sc + 1))"
    note cl = larger_child [OF True c_def]
    let ?f = "first[h := first ! c]"
    from "1.prems"(1) have e: "adjust_heap_loop ?f c c len = (f', h', sc')"
      by (simp only: adjust_heap_loop_step [OF True c_def])
    have "h' = sc' \<and> sc' < len \<and> \<not> sc' < (len - 1) div 2
      \<and> (\<forall>i \<ge> len. f' ! i = ?f ! i) \<and> mset (f'[h' := v]) = mset (?f[c := v])"
      using "1.prems"(4) cl(1) by (intro "1.IH" [OF True refl c_def e refl]) simp_all
    moreover have "mset (?f[c := v]) = mset (first[h := v])"
      using "1.prems"(2,3,4) cl by (intro mset_update_swap) simp_all
    moreover have "\<forall>i \<ge> len. ?f ! i = first ! i"
      using "1.prems"(2,3) by simp
    ultimately show ?thesis by auto
  qed
qed

lemma adjust_heap_last:
  assumes "adjust_heap_loop first h h len = (f', h', sc')"
    and "even len \<and> sc' = (len - 2) div 2" and "c = 2 * (sc' + 1) - 1"
  shows "adjust_heap first h len v = push_heap_hole (f'[h' := f' ! c]) c h v"
  using assms(2) unfolding assms(3) by (simp add: adjust_heap_def assms(1) Let_def)

lemma adjust_heap_leaf:
  assumes "adjust_heap_loop first h h len = (f', h', sc')"
    and "\<not> (even len \<and> sc' = (len - 2) div 2)"
  shows "adjust_heap first h len v = push_heap_hole f' h' h v"
  using assms(2) by (auto simp: adjust_heap_def assms(1) Let_def)

lemma last_child:
  fixes len sc c :: nat
  assumes "even len" and "sc = (len - 2) div 2" and "sc < len" and "c = 2 * (sc + 1) - 1"
  shows "c < len" and "sc < c" and "(c - 1) div 2 = sc"
    and "\<And>i. 0 < i \<Longrightarrow> i < len \<Longrightarrow> (i - 1) div 2 = sc \<Longrightarrow> i = c"
    and "\<And>i. \<not> (0 < i \<and> i < len \<and> (i - 1) div 2 = c)"
proof -
  from assms(1,3) obtain k where k: "len = 2 * k" "0 < k" by (auto elim!: evenE)
  with assms(2) have sc: "sc = k - 1" by simp
  with k assms(4) have c: "c = 2 * k - 1" by simp
  from k sc c show "c < len" "sc < c" "(c - 1) div 2 = sc" by auto
  show "i = c" if "0 < i" "i < len" "(i - 1) div 2 = sc" for i
    using that k sc c by linarith
  show "\<not> (0 < i \<and> i < len \<and> (i - 1) div 2 = c)" for i
    using k c by linarith
qed

lemma no_child:
  fixes len sc i :: nat
  assumes "\<not> sc < (len - 1) div 2" and "\<not> (even len \<and> sc = (len - 2) div 2)"
  shows "\<not> (0 < i \<and> i < len \<and> (i - 1) div 2 = sc)"
  using assms by presburger

lemma adjust_heap_props:
  assumes "h < len" and "len \<le> length first"
  shows "mset (adjust_heap first h len v) = mset (first[h := v])"
    and "\<forall>i \<ge> len. adjust_heap first h len v ! i = first ! i"
proof -
  obtain f' h' sc' where e: "adjust_heap_loop first h h len = (f', h', sc')"
    by (cases "adjust_heap_loop first h h len")
  from adjust_heap_loop_props [OF e refl assms, of v]
  have p: "h' = sc'" "sc' < len" "\<not> sc' < (len - 1) div 2"
    "\<forall>i \<ge> len. f' ! i = first ! i" "mset (f'[h' := v]) = mset (first[h := v])"
    by blast+
  note len = length_adjust_heap_loop [OF e]
  define c where "c = 2 * (sc' + 1) - 1"
  show "mset (adjust_heap first h len v) = mset (first[h := v])"
  proof (cases "even len \<and> sc' = (len - 2) div 2")
    case False
    from p assms len show ?thesis
      unfolding adjust_heap_leaf [OF e False] by (simp add: mset_push_heap_hole)
  next
    case True
    note c = last_child [OF True [THEN conjunct1] True [THEN conjunct2] p(2) c_def]
    have "mset (adjust_heap first h len v) = mset (f'[h' := f' ! c, c := v])"
      unfolding adjust_heap_last [OF e True c_def]
      using c(1) len assms by (simp add: mset_push_heap_hole)
    also have "\<dots> = mset (f'[h' := v])"
      using c(1,2) p(1,2) len assms by (intro mset_update_swap) simp_all
    finally show ?thesis by (simp add: p(5))
  qed
  show "\<forall>i \<ge> len. adjust_heap first h len v ! i = first ! i"
  proof (intro allI impI)
    fix i assume i: "len \<le> i"
    show "adjust_heap first h len v ! i = first ! i"
    proof (cases "even len \<and> sc' = (len - 2) div 2")
      case False
      from p i show ?thesis
        unfolding adjust_heap_leaf [OF e False] by (simp add: nth_push_heap_hole)
    next
      case True
      note c = last_child [OF True [THEN conjunct1] True [THEN conjunct2] p(2) c_def]
      from c(1) i p show ?thesis
        unfolding adjust_heap_last [OF e True c_def] by (simp add: nth_push_heap_hole)
    qed
  qed
qed

lemma mset_queue_push: "mset (queue_push q b) = add_mset b (mset q)"
  by (simp add: queue_push_def push_heap_def mset_push_heap_hole)

lemma pop_heap_props:
  assumes "q \<noteq> []"
  shows "mset (pop_heap q) = mset q" and "last (pop_heap q) = hd q"
proof -
  define n where "n = length q - 1"
  show "mset (pop_heap q) = mset q"
  proof (cases "length q > 1")
    case False
    then show ?thesis by (simp add: pop_heap_def)
  next
    case True
    then have "mset (pop_heap q) = mset (q[n := q ! 0, 0 := q ! n])"
      by (simp add: pop_heap_def Let_def n_def adjust_heap_props(1))
    also have "\<dots> = mset q"
      using True by (intro mset_swap) (auto simp: n_def)
    finally show ?thesis .
  qed
  show "last (pop_heap q) = hd q"
  proof (cases "length q > 1")
    case False
    with assms show ?thesis by (cases q) (simp_all add: pop_heap_def)
  next
    case True
    from True have n: "n < length q" by (simp add: n_def)
    have "pop_heap q ! n = q[n := q ! 0] ! n"
      using True adjust_heap_props(2) [of 0 n "q[n := q ! 0]" "q ! n"]
      by (simp add: pop_heap_def Let_def n_def)
    moreover from assms have "pop_heap q \<noteq> []"
      by (metis length_pop_heap length_0_conv)
    ultimately show ?thesis
      using n assms by (simp add: last_conv_nth hd_conv_nth n_def)
  qed
qed

lemma mset_butlast: "xs \<noteq> [] \<Longrightarrow> mset (butlast xs) = mset xs - {#last xs#}"
  by (induction xs) auto

lemma mset_queue_pop: "q \<noteq> [] \<Longrightarrow> mset (queue_pop q) = mset q - {#queue_top q#}"
proof -
  assume q: "q \<noteq> []"
  then have "pop_heap q \<noteq> []" by (metis length_pop_heap length_0_conv)
  from mset_butlast [OF this] pop_heap_props [OF q] show ?thesis
    by (simp add: queue_pop_def queue_top_def)
qed

lemma queue_top_mem: "q \<noteq> [] \<Longrightarrow> queue_top q \<in> set q"
  by (simp add: queue_top_def)

lemma set_queue_pop: "set (queue_pop q) \<subseteq> set q"
proof (cases "q = []")
  case True
  then show ?thesis by (simp add: queue_pop_def pop_heap_def)
next
  case False
  from mset_queue_pop [OF this] show ?thesis
    by (metis in_diffD set_mset_mset subsetI)
qed

lemma set_queue_push: "set (queue_push q b) = insert b (set q)"
  using mset_queue_push [of q b] by (metis set_mset_add_mset_insert set_mset_mset)

subsection \<open>The heap algorithms keep the heap property\<close>

lemma push_heap_hole_heap:
  assumes "t = 0" and "h < n" and "n \<le> length first" and "no_nan first"
    and "bigram_score v \<noteq> NaN"
    and "\<forall>i. 0 < i \<and> i < n \<and> i \<noteq> h \<longrightarrow> \<not> comparator (first ! ((i - 1) div 2)) (first ! i)"
    and "\<forall>c. 0 < c \<and> c < n \<and> (c - 1) div 2 = h \<longrightarrow> \<not> comparator v (first ! c)"
    and "0 < h \<longrightarrow> (\<forall>c. 0 < c \<and> c < n \<and> (c - 1) div 2 = h \<longrightarrow>
           \<not> comparator (first ! ((h - 1) div 2)) (first ! c))"
  shows "is_heap_upto n (push_heap_hole first h t v)"
  using assms
proof (induction first h t v rule: push_heap_hole.induct)
  case (1 first h t v)
  define p where "p = (h - 1) div 2"
  note J1 = "1.prems"(6) and J2 = "1.prems"(7) and J3 = "1.prems"(8) [folded p_def]
  have nn: "bigram_score (first ! i) \<noteq> NaN" if "i < n" for i
    using that "1.prems"(3,4) by (simp add: no_nan_def)
  show ?case
  proof (cases "h > t \<and> comparator (first ! p) v")
    case True
    then have h0: "0 < h" and cv: "comparator (first ! p) v" by simp_all
    from h0 have p: "p < h" unfolding p_def by linarith
    let ?f = "first[h := first ! p]"
    have hl: "h < length first" using "1.prems"(2,3) by simp
    have pn: "p < n" using p "1.prems"(2) by simp
    have nth: "?f ! i = (if i = h then first ! p else first ! i)" for i
      using hl by (simp add: nth_list_update)
    have a: "no_nan ?f"
      using "1.prems"(4) nn [OF pn] set_update_subset_insert [of first h "first ! p"]
      by (auto simp: no_nan_def)
    have b: "\<forall>i. 0 < i \<and> i < n \<and> i \<noteq> p \<longrightarrow> \<not> comparator (?f ! ((i - 1) div 2)) (?f ! i)"
    proof (intro allI impI)
      fix i assume i: "0 < i \<and> i < n \<and> i \<noteq> p"
      show "\<not> comparator (?f ! ((i - 1) div 2)) (?f ! i)"
      proof (cases "i = h")
        case True
        with p hl show ?thesis unfolding p_def by (simp add: comparator_irrefl)
      next
        case ih: False
        show ?thesis
        proof (cases "(i - 1) div 2 = h")
          case True
          with J3 h0 i have "\<not> comparator (first ! p) (first ! i)" by blast
          with True ih show ?thesis by (simp add: nth)
        next
          case False
          with J1 i ih show ?thesis by (simp add: nth)
        qed
      qed
    qed
    have c: "\<forall>c. 0 < c \<and> c < n \<and> (c - 1) div 2 = p \<longrightarrow> \<not> comparator v (?f ! c)"
    proof (intro allI impI)
      fix c assume c: "0 < c \<and> c < n \<and> (c - 1) div 2 = p"
      show "\<not> comparator v (?f ! c)"
      proof (cases "c = h")
        case True
        with cv show ?thesis by (simp add: nth comparator_asym)
      next
        case False
        from c have "c \<noteq> p" by linarith
        with J1 c False have "\<not> comparator (first ! p) (first ! c)" by metis
        moreover have "comparator (first ! p) (first ! c)" if "comparator v (first ! c)"
          using comparator_trans [OF "1.prems"(5) cv that] .
        ultimately show ?thesis using False by (auto simp: nth)
      qed
    qed
    have d: "0 < p \<longrightarrow> (\<forall>c. 0 < c \<and> c < n \<and> (c - 1) div 2 = p \<longrightarrow>
           \<not> comparator (?f ! ((p - 1) div 2)) (?f ! c))"
    proof (intro allI impI)
      fix c assume p0: "0 < p" and c: "0 < c \<and> c < n \<and> (c - 1) div 2 = p"
      define pp where "pp = (p - 1) div 2"
      from p0 have pp: "pp < p" unfolding pp_def by linarith
      with p have pph: "pp \<noteq> h" by linarith
      from J1 p0 pn p have e1: "\<not> comparator (first ! pp) (first ! p)"
        unfolding pp_def by simp
      show "\<not> comparator (?f ! pp) (?f ! c)"
      proof (cases "c = h")
        case True
        with e1 pph show ?thesis by (simp add: nth)
      next
        case False
        from c have "c \<noteq> p" by linarith
        with J1 c False have e2: "\<not> comparator (first ! p) (first ! c)" by metis
        from pp pn have "pp < n" by linarith
        from comparator_neg_trans [OF nn [OF this] nn [OF pn] nn e1 e2] c
        have "\<not> comparator (first ! pp) (first ! c)" by simp
        with False pph show ?thesis by (simp add: nth)
      qed
    qed
    have "is_heap_upto n (push_heap_hole ?f p t v)"
      using "1.prems"(1,3,5) pn a b c d
      by (intro "1.IH" [OF p_def True]) simp_all
    with True show ?thesis
      unfolding p_def by (subst push_heap_hole.simps) (simp add: Let_def)
  next
    case False
    have r: "push_heap_hole first h t v = first[h := v]"
      using False unfolding p_def by (subst push_heap_hole.simps) (auto simp: Let_def)
    have hl: "h < length first" using "1.prems"(2,3) by simp
    have nth: "first[h := v] ! i = (if i = h then v else first ! i)" for i
      using hl by (simp add: nth_list_update)
    have "\<not> comparator (first[h := v] ! ((i - 1) div 2)) (first[h := v] ! i)"
      if i: "0 < i \<and> i < n" for i
    proof (cases "i = h")
      case True
      with i have "(i - 1) div 2 \<noteq> h" by linarith
      with True False i "1.prems"(1) show ?thesis unfolding p_def by (simp add: nth)
    next
      case ih: False
      show ?thesis
      proof (cases "(i - 1) div 2 = h")
        case True
        with J2 i ih show ?thesis by (simp add: nth)
      next
        case False
        with J1 i ih show ?thesis by (simp add: nth)
      qed
    qed
    then show ?thesis by (simp add: r is_heap_upto_def)
  qed
qed



lemma adjust_heap_loop_heap:
  assumes "adjust_heap_loop first h sc len = (f', h', sc')"
    and "h = sc" and "sc < len" and "len \<le> length first"
    and "is_heap_upto len first" and "no_nan first"
  shows "is_heap_upto len f' \<and> no_nan f'"
  using assms
proof (induction first h sc len rule: adjust_heap_loop.induct)
  case (1 first h sc len)
  show ?case
  proof (cases "sc < (len - 1) div 2")
    case False
    from adjust_heap_loop_stop [OF this] "1.prems" show ?thesis by auto
  next
    case True
    define c where "c = (if comparator (first ! (2 * (sc + 1))) (first ! (2 * (sc + 1) - 1))
              then 2 * (sc + 1) - 1 else 2 * (sc + 1))"
    note cl = larger_child [OF True c_def]
    let ?f = "first[h := first ! c]"
    from "1.prems"(1) have e: "adjust_heap_loop ?f c c len = (f', h', sc')"
      by (simp only: adjust_heap_loop_step [OF True c_def])
    have hl: "h < length first" using "1.prems"(2,3,4) by simp
    have nth: "?f ! i = (if i = h then first ! c else first ! i)" for i
      using hl by (simp add: nth_list_update)
    have nn: "bigram_score (first ! i) \<noteq> NaN" if "i < len" for i
      using that "1.prems"(4,6) by (simp add: no_nan_def)
    have hp: "\<not> comparator (first ! ((i - 1) div 2)) (first ! i)" if "0 < i" "i < len" for i
      using that "1.prems"(5) by (simp add: is_heap_upto_def)
    have a: "no_nan ?f"
      using "1.prems"(6) nn [OF cl(1)] set_update_subset_insert [of first h "first ! c"]
      by (auto simp: no_nan_def)
    have b: "is_heap_upto len ?f"
      unfolding is_heap_upto_def
    proof (intro allI impI)
      fix i assume i: "0 < i \<and> i < len"
      define pi where "pi = (i - 1) div 2"
      from i have ph: "pi < i" unfolding pi_def by linarith
      show "\<not> comparator (?f ! ((i - 1) div 2)) (?f ! i)"
        unfolding pi_def [symmetric]
      proof (cases "i = h")
        case True
        from ph i have "pi < len" by simp
        from comparator_neg_trans [OF nn [OF this] nn [of h] nn [OF cl(1)]]
          hp [of h] hp [of c] cl i True "1.prems"(2,3)
        have "\<not> comparator (first ! pi) (first ! c)" by (simp add: pi_def)
        with True ph show "\<not> comparator (?f ! pi) (?f ! i)" by (simp add: nth)
      next
        case ih: False
        show "\<not> comparator (?f ! pi) (?f ! i)"
        proof (cases "pi = h")
          case True
          with cl(4) [of i] i "1.prems"(2) have "\<not> comparator (first ! c) (first ! i)"
            by (simp add: pi_def)
          with True ih show ?thesis by (simp add: nth)
        next
          case False
          with hp [of i] i ih show ?thesis by (simp add: nth pi_def)
        qed
      qed
    qed
    from "1.prems"(4) cl(1) b a show ?thesis
      by (intro "1.IH" [OF True refl c_def e refl]) simp_all
  qed
qed

lemma adjust_heap_heap:
  assumes "0 < len" and "len \<le> length first" and "is_heap_upto len first"
    and "no_nan first" and "bigram_score v \<noteq> NaN"
  shows "is_heap_upto len (adjust_heap first 0 len v)"
proof -
  obtain f' h' sc' where e: "adjust_heap_loop first 0 0 len = (f', h', sc')"
    by (cases "adjust_heap_loop first 0 0 len")
  from adjust_heap_loop_props [OF e refl assms(1,2), of v]
  have p: "h' = sc'" "sc' < len" "\<not> sc' < (len - 1) div 2" by blast+
  note len = length_adjust_heap_loop [OF e]
  from adjust_heap_loop_heap [OF e refl assms(1,2,3,4)]
  have hp: "is_heap_upto len f'" and nn: "no_nan f'" by simp_all
  have edge: "\<not> comparator (f' ! ((i - 1) div 2)) (f' ! i)" if "0 < i" "i < len" for i
    using that hp by (simp add: is_heap_upto_def)
  have nan: "bigram_score (f' ! i) \<noteq> NaN" if "i < len" for i
    using that nn len assms(2) by (simp add: no_nan_def)
  define c where "c = 2 * (sc' + 1) - 1"
  show ?thesis
  proof (cases "even len \<and> sc' = (len - 2) div 2")
    case False
    note leaf = no_child [OF p(3) False]
    have "is_heap_upto len (push_heap_hole f' h' 0 v)"
      using p len assms(2,5) nn edge leaf
      by (intro push_heap_hole_heap [OF refl]) auto
    then show ?thesis by (simp only: adjust_heap_leaf [OF e False])
  next
    case True
    note c = last_child [OF True [THEN conjunct1] True [THEN conjunct2] p(2) c_def]
    let ?f = "f'[h' := f' ! c]"
    have hl: "h' < length f'" using p len assms(2) by simp
    have nth: "?f ! i = (if i = h' then f' ! c else f' ! i)" for i
      using hl by (simp add: nth_list_update)
    have a: "no_nan ?f"
      using nn nan [OF c(1)] set_update_subset_insert [of f' h' "f' ! c"]
      by (auto simp: no_nan_def)
    have b: "\<not> comparator (?f ! ((i - 1) div 2)) (?f ! i)"
      if i: "0 < i" "i < len" "i \<noteq> c" for i
    proof -
      define pi where "pi = (i - 1) div 2"
      from i have ph: "pi < i" unfolding pi_def by linarith
      show ?thesis unfolding pi_def [symmetric]
      proof (cases "i = h'")
        case True
        from ph i have "pi < len" by simp
        from comparator_neg_trans [OF nan [OF this] nan [of h'] nan [OF c(1)]]
          edge [of h'] edge [of c] c(1,2,3) p i True
        have "\<not> comparator (f' ! pi) (f' ! c)" by (simp add: pi_def)
        with True ph show "\<not> comparator (?f ! pi) (?f ! i)" by (simp add: nth)
      next
        case False
        from c(4) [OF i(1,2)] i(3) p(1) have "pi \<noteq> h'" by (auto simp: pi_def)
        with False edge [OF i(1,2)] show "\<not> comparator (?f ! pi) (?f ! i)"
          by (simp add: nth pi_def)
      qed
    qed
    have "is_heap_upto len (push_heap_hole ?f c 0 v)"
      using c(1,5) len assms(2,5) a b
      by (intro push_heap_hole_heap [OF refl]) auto
    then show ?thesis by (simp only: adjust_heap_last [OF e True c_def])
  qed
qed

lemma heap_inv_empty: "heap_inv []"
  by (simp add: heap_inv_def is_heap_upto_def no_nan_def)

lemma heap_inv_push:
  assumes "heap_inv q" and "bigram_score b \<noteq> NaN"
  shows "heap_inv (queue_push q b)"
proof -
  from assms have nn: "no_nan (q @ [b])" by (simp add: heap_inv_def no_nan_def)
  have e: "\<not> comparator ((q @ [b]) ! ((i - 1) div 2)) ((q @ [b]) ! i)"
    if "0 < i" "i < length q" for i
  proof -
    from that have "(i - 1) div 2 < length q" by linarith
    with that assms(1) show ?thesis by (simp add: heap_inv_def is_heap_upto_def nth_append)
  qed
  have leaf: "\<not> (0 < c \<and> c < Suc (length q) \<and> (c - 1) div 2 = length q)" for c
    by linarith
  have "is_heap_upto (Suc (length q)) (push_heap_hole (q @ [b]) (length q) 0 b)"
    using assms(2) nn e leaf
    by (intro push_heap_hole_heap [OF refl]) (auto simp: less_Suc_eq)
  moreover have "no_nan (queue_push q b)"
    using assms by (simp add: no_nan_def set_queue_push heap_inv_def)
  ultimately show ?thesis by (simp add: heap_inv_def queue_push_def push_heap_def)
qed

lemma heap_inv_pop:
  assumes "heap_inv q"
  shows "heap_inv (queue_pop q)"
proof -
  have nn: "no_nan (queue_pop q)"
    using assms set_queue_pop [of q] by (auto simp: heap_inv_def no_nan_def)
  show ?thesis
  proof (cases "length q > 1")
    case False
    then have "queue_pop q = []" by (cases q) (simp_all add: queue_pop_def pop_heap_def)
    then show ?thesis by (simp add: heap_inv_empty)
  next
    case True
    define n where "n = length q - 1"
    let ?c = "q[n := q ! 0]"
    from True have n: "0 < n" "n < length q" by (simp_all add: n_def)
    have a: "is_heap_upto n ?c"
      unfolding is_heap_upto_def
    proof (intro allI impI)
      fix i assume i: "0 < i \<and> i < n"
      then have "(i - 1) div 2 < n" by linarith
      with i n assms show "\<not> comparator (?c ! ((i - 1) div 2)) (?c ! i)"
        by (simp add: heap_inv_def is_heap_upto_def)
    qed
    from n have "q ! 0 \<in> set q" by (intro nth_mem) linarith
    then have b: "no_nan ?c"
      using assms set_update_subset_insert [of q n "q ! 0"]
      by (auto simp: heap_inv_def no_nan_def)
    have c: "bigram_score (q ! n) \<noteq> NaN"
      using assms n by (simp add: heap_inv_def no_nan_def)
    have "is_heap_upto n (adjust_heap ?c 0 n (q ! n))"
      using n by (intro adjust_heap_heap [OF _ _ a b c]) simp_all
    then have "is_heap_upto n (pop_heap q)"
      using True by (simp add: pop_heap_def Let_def n_def)
    then have "is_heap_upto (length (queue_pop q)) (queue_pop q)"
      unfolding queue_pop_def is_heap_upto_def
    proof (intro allI impI)
      fix i assume h: "\<forall>i. 0 < i \<and> i < n \<longrightarrow>
          \<not> comparator (pop_heap q ! ((i - 1) div 2)) (pop_heap q ! i)"
        and i: "0 < i \<and> i < length (butlast (pop_heap q))"
      then have "i < n" by (simp add: n_def)
      moreover from i have "(i - 1) div 2 < length (butlast (pop_heap q))" by linarith
      ultimately show "\<not> comparator (butlast (pop_heap q) ! ((i - 1) div 2))
          (butlast (pop_heap q) ! i)"
        using h i by (simp only: nth_butlast) blast
    qed
    with nn show ?thesis by (simp add: heap_inv_def)
  qed
qed

lemma heap_inv_top:
  assumes "heap_inv q" and "x \<in> set q"
  shows "\<not> comparator (queue_top q) x"
proof -
  have nn: "bigram_score (q ! i) \<noteq> NaN" if "i < length q" for i
    using that assms(1) by (simp add: heap_inv_def no_nan_def)
  have top: "\<not> comparator (q ! 0) (q ! i)" if "i < length q" for i
    using that
  proof (induction i rule: less_induct)
    case (less i)
    show ?case
    proof (cases "i = 0")
      case True
      then show ?thesis by (simp add: comparator_irrefl)
    next
      case False
      define p where "p = (i - 1) div 2"
      from False have p: "p < i" unfolding p_def by linarith
      with less.prems have pl: "p < length q" by simp
      from assms(1) False less.prems have "\<not> comparator (q ! p) (q ! i)"
        by (simp add: heap_inv_def is_heap_upto_def p_def)
      from less.prems have "0 < length q" by linarith
      from comparator_neg_trans [OF nn [OF this] nn [OF pl] nn [OF less.prems]
          less.IH [OF p pl] \<open>\<not> comparator (q ! p) (q ! i)\<close>]
      show ?thesis .
    qed
  qed
  from assms(2) obtain i where i: "i < length q" "q ! i = x"
    by (auto simp: in_set_conv_nth)
  from assms(2) have "q \<noteq> []" by auto
  with top [OF i(1)] i(2) show ?thesis by (simp add: queue_top_def hd_conv_nth)
qed

lemma queue_states_heap_inv: "queue_states q \<Longrightarrow> heap_inv q"
  by (induction rule: queue_states.induct) (simp_all add: heap_inv_empty heap_inv_push heap_inv_pop)

lemma queue_top_greatest: "heap_inv q \<Longrightarrow> x \<in> set q \<Longrightarrow> \<not> outranks x (queue_top q)"
  by (simp add: comparator_outranks [symmetric] heap_inv_top)

subsection \<open>Draining the queue\<close>

lemma mset_pop_all: "mset (pop_all q) = mset q"
proof (induction q rule: pop_all.induct)
  case (1 q)
  show ?case
  proof (cases "q = []")
    case True
    then show ?thesis by (simp add: pop_all.simps)
  next
    case False
    then have "mset (pop_all q) = add_mset (queue_top q) (mset q - {#queue_top q#})"
      using "1.IH" by (simp add: pop_all.simps [of q] mset_queue_pop)
    with False show ?thesis by (simp add: queue_top_mem)
  qed
qed

lemma sorted_pop_all: "heap_inv q \<Longrightarrow> sorted_wrt (\<lambda>a b. \<not> outranks b a) (pop_all q)"
proof (induction q rule: pop_all.induct)
  case (1 q)
  show ?case
  proof (cases "q = []")
    case True
    then show ?thesis by (simp add: pop_all.simps)
  next
    case False
    have "set (pop_all (queue_pop q)) \<subseteq> set q"
      using mset_pop_all [of "queue_pop q"] set_queue_pop [of q]
      by (metis set_mset_mset)
    then have "\<forall>x \<in> set (pop_all (queue_pop q)). \<not> outranks x (queue_top q)"
      using queue_top_greatest [OF "1.prems"] by blast
    with False "1.IH" [OF False heap_inv_pop [OF "1.prems"]] show ?thesis
      by (simp add: pop_all.simps [of q])
  qed
qed

subsection \<open>The queue of the merge loop\<close>

text \<open>
  In the merge loop every score pushed is an entry of \<open>id_to_score\<close>: when no entry is a
  NaN, every state of the work queue is a state of the kind the amended claim is about.
\<close>

lemma try_add_queue_states:
  assumes "\<forall>s \<in> set (id_to_score v). s \<noteq> NaN" and "queue_states q"
  shows "queue_states (try_add_bigram_spm v text symbols q l r)"
  using assms
  by (auto simp: try_add_bigram_spm_def Let_def intro!: queue_states.push split: option.splits)

lemma spm_fold_queue_states:
  assumes "\<forall>s \<in> set (id_to_score v). s \<noteq> NaN" and "queue_states q"
  shows "queue_states (fold (\<lambda>i q. try_add_bigram_spm v text symbols q (int i) (int i + 1)) xs q)"
  using assms(2) by (induction xs arbitrary: q) (simp_all add: try_add_queue_states [OF assms(1)])

lemma spm_initial_queue_states:
  "\<forall>s \<in> set (id_to_score v). s \<noteq> NaN \<Longrightarrow> queue_states (spm_initial_queue v text symbols)"
  unfolding spm_initial_queue_def by (rule spm_fold_queue_states) (simp_all add: queue_states.empty)

lemma spm_merge_step_queue_states:
  assumes "\<forall>s \<in> set (id_to_score v). s \<noteq> NaN" and "queue_states (snd state)"
    and "snd state \<noteq> []"
  shows "queue_states (snd (spm_merge_step v text state))"
  using assms(2,3)
  by (auto simp: spm_merge_step_def Let_def
      intro!: try_add_queue_states [OF assms(1)] queue_states.pop)

text \<open>
  So is every state of the work queue in the merge loop, after any number of iterations.
\<close>

lemma spm_loop_queue_states:
  assumes "\<forall>s \<in> set (id_to_score v). s \<noteq> NaN"
  shows "queue_states (snd (((\<lambda>state. if snd state = [] then state
            else spm_merge_step v text state) ^^ n)
          (symbols, spm_initial_queue v text symbols)))"
proof (induction n)
  case 0
  show ?case by (simp add: spm_initial_queue_states [OF assms])
next
  case (Suc n)
  let ?state = "((\<lambda>state. if snd state = [] then state
      else spm_merge_step v text state) ^^ n) (symbols, spm_initial_queue v text symbols)"
  show ?case
  proof (cases "snd ?state = []")
    case True
    with Suc show ?thesis by simp
  next
    case False
    from spm_merge_step_queue_states [OF assms Suc False] False show ?thesis by simp
  qed
qed

subsection \<open>The order of the pops\<close>

text \<open>
  Candidates that the comparator does not tell apart leave the queue in the order of the
  heap, which is not the order in which they were pushed.
\<close>

lemma pop_all_equivalent:
  "map bigram_size (pop_all queue_equivalent) = [10, 12, 11, 13]"
  by code_simp


lemma length_queue_example: "length queue_example = 3"
  by (simp add: queue_example_def)

lemma queue_example_states: "queue_states queue_example"
  unfolding queue_example_def by (intro queue_states.intros) simp_all

lemma pop_all_example:
  "map bigram_left (pop_all queue_example) = [1, 0, 2]
   \<and> map bigram_score (pop_all queue_example) = [Finite 2, Finite 1, Finite 1]"
  by code_simp

text \<open>
  Claim C1 as stated fails where a score is a NaN. On the store \<open>store_nan\<close> and the text
  \<open>abcdef\<close> the queue starts with the candidates at the left indices 0 to 4, of the
  scores 5, NaN, 1, 3 and 2. The candidate of score 2 is popped second, before the
  candidate of score 3, which is in the queue all the time; so \<open>ef\<close> is merged although
  \<open>de\<close> has the strictly higher score, and the text is tokenized as \<open>ab\<close>, \<open>cd\<close>,
  \<open>ef\<close>.
\<close>

theorem pop_order_counterexample:
  "map bigram_left (pop_all (spm_initial_queue store_nan ''abcdef''
      (spm_link_next (spm_segment ''abcdef'' 0 0 [])))) = [0, 4, 3, 1, 2]
   \<and> map bigram_score (pop_all (spm_initial_queue store_nan ''abcdef''
      (spm_link_next (spm_segment ''abcdef'' 0 0 []))))
       = [Finite 5, Finite 2, Finite 3, NaN, Finite 1]
   \<and> float_lt
       (bigram_score (pop_all (spm_initial_queue store_nan ''abcdef''
          (spm_link_next (spm_segment ''abcdef'' 0 0 []))) ! 1))
       (bigram_score (pop_all (spm_initial_queue store_nan ''abcdef''
          (spm_link_next (spm_segment ''abcdef'' 0 0 []))) ! 2))
   \<and> tokenize_spm store_nan ''abcdef'' = Some [6, 8, 10]"
  by code_simp

text \<open>
  Claim C1, amended. As long as no candidate with a NaN score has been pushed, the queue
  pops candidates by higher score first and, on equal score, by smaller left index first.
  At every pop the candidate taken is in the queue, no candidate then in the queue has a
  strictly higher score or the same score and a smaller left index, and exactly that
  candidate leaves the queue. Hence, draining such a queue delivers each of its candidates
  once, and of any two of them the one with the strictly higher score, or with the same
  score and the smaller left index, comes out earlier. In the merge loop this is the case
  when no entry of \<open>id_to_score\<close> is a NaN (\<open>spm_initial_queue_states\<close>,
  \<open>spm_merge_step_queue_states\<close>).
\<close>

theorem pop_order:
  assumes "queue_states q"
  shows "(q \<noteq> [] \<longrightarrow>
      queue_top q \<in> set q
      \<and> mset (queue_pop q) = mset q - {#queue_top q#}
      \<and> (\<forall>x \<in> set q.
            \<not> (float_lt (bigram_score (queue_top q)) (bigram_score x)
               \<or> (\<not> float_ne (bigram_score x) (bigram_score (queue_top q))
                  \<and> bigram_left x < bigram_left (queue_top q)))))
   \<and> mset (pop_all q) = mset q
   \<and> (\<forall>i < length (pop_all q). \<forall>j < length (pop_all q).
        (float_lt (bigram_score (pop_all q ! j)) (bigram_score (pop_all q ! i))
         \<or> (\<not> float_ne (bigram_score (pop_all q ! i)) (bigram_score (pop_all q ! j))
            \<and> bigram_left (pop_all q ! i) < bigram_left (pop_all q ! j)))
        \<longrightarrow> i < j)"
proof (intro conjI allI impI ballI)
  note inv = queue_states_heap_inv [OF assms]
  show "mset (pop_all q) = mset q" by (rule mset_pop_all)
  {
    assume "q \<noteq> []"
    then show "queue_top q \<in> set q" by (rule queue_top_mem)
  next
    assume "q \<noteq> []"
    then show "mset (queue_pop q) = mset q - {#queue_top q#}" by (rule mset_queue_pop)
  next
    fix x
    assume "x \<in> set q"
    from queue_top_greatest [OF inv this]
    show "\<not> (float_lt (bigram_score (queue_top q)) (bigram_score x)
          \<or> (\<not> float_ne (bigram_score x) (bigram_score (queue_top q))
             \<and> bigram_left x < bigram_left (queue_top q)))"
      by (simp add: outranks_def)
  next
    fix i j
    assume i: "i < length (pop_all q)" and j: "j < length (pop_all q)"
      and "float_lt (bigram_score (pop_all q ! j)) (bigram_score (pop_all q ! i))
         \<or> (\<not> float_ne (bigram_score (pop_all q ! i)) (bigram_score (pop_all q ! j))
            \<and> bigram_left (pop_all q ! i) < bigram_left (pop_all q ! j))"
    then have o: "outranks (pop_all q ! i) (pop_all q ! j)" by (simp add: outranks_def)
    show "i < j"
    proof (rule ccontr)
      assume "\<not> i < j"
      then consider "j = i" | "j < i" by fastforce
      then show False
      proof cases
        case 1
        with o show False by (simp add: outranks_irrefl)
      next
        case 2
        from sorted_wrt_nth_less [OF sorted_pop_all [OF inv] 2 i] o show False by simp
      qed
    qed
  }
qed

theorem pop_order_witness:
  "queue_states queue_example \<and> queue_example \<noteq> []
   \<and> queue_top queue_example \<in> set queue_example
   \<and> mset (pop_all queue_example) = mset queue_example
   \<and> map bigram_left (pop_all queue_example) = [1, 0, 2]
   \<and> map bigram_score (pop_all queue_example) = [Finite 2, Finite 1, Finite 1]"
proof -
  note t = pop_order [OF queue_example_states]
  have ne: "queue_example \<noteq> []"
    using length_queue_example by auto
  from t ne have "queue_top queue_example \<in> set queue_example" by blast
  moreover from t have "mset (pop_all queue_example) = mset queue_example" by blast
  ultimately show ?thesis
    using queue_example_states ne pop_all_example by simp
qed

text \<open>
  On the text \<open>abcd\<close> the queue starts with the two candidates of equal score, the
  first pass of the merge loop merges the symbols 0 and 1, and the text is tokenized as
  \<open>ab\<close>, \<open>cd\<close>.
\<close>

lemma spm_tie_break_example:
  "map bigram_left (spm_initial_queue store_tie ''abcd''
      (spm_link_next (spm_segment ''abcd'' 0 0 []))) = [0, 2]
   \<and> map bigram_score (spm_initial_queue store_tie ''abcd''
      (spm_link_next (spm_segment ''abcd'' 0 0 []))) = [Finite 1, Finite 1]
   \<and> map sym_n (fst (spm_merge_step store_tie ''abcd''
        (spm_link_next (spm_segment ''abcd'' 0 0 []),
         spm_initial_queue store_tie ''abcd'' (spm_link_next (spm_segment ''abcd'' 0 0 [])))))
       = [2, 0, 1, 1]
   \<and> tokenize_spm store_tie ''abcd'' = Some [4, 5]"
  by code_simp

section \<open>The facade on the empty text\<close>

lemma tokenize_spm_empty: "tokenize_spm v [] = Some []"
  by (simp add: tokenize_spm_def)

lemma tokenize_bpe_empty: "tokenize_bpe regex v [] = Some []"
  by (simp add: tokenize_bpe_def)

text \<open>
  Claim C3 as stated fails: where exactly one of the two ids resolves in range, the result
  is not empty but holds that one id.
\<close>

theorem tokenize_empty_counterexample:
  "\<not> (bos_token_id store_bos_only \<noteq> - 1
        \<and> unat (bos_token_id store_bos_only) < length (id_to_token store_bos_only)
        \<and> eos_token_id store_bos_only \<noteq> - 1
        \<and> unat (eos_token_id store_bos_only) < length (id_to_token store_bos_only))
   \<and> tokenize matches_nothing store_bos_only [] True True = Some [0]
   \<and> tokenize matches_nothing store_bos_only [] True True \<noteq> Some []"
  by (simp add: store_bos_only_def SanaVocab_default_def tokenize_def tokenize_spm_empty)

text \<open>
  Claim C3, amended. For every store, \<open>tokenize("", true, true)\<close> returns the begin id if
  it resolves in range, followed by the end id if it resolves in range, each decided on its
  own; an id resolves in range when it is not \<open>-1\<close> and, read as an unsigned 32-bit
  number, is below the length of \<open>id_to_token\<close>. So the result is \<open>[bos_id, eos_id]\<close>
  when both resolve, the one id that resolves when only one does, and empty when neither
  does.
\<close>

theorem tokenize_empty:
  "tokenize regex v [] True True =
     Some ((if bos_token_id v \<noteq> - 1 \<and> unat (bos_token_id v) < length (id_to_token v)
            then [bos_token_id v] else [])
         @ (if eos_token_id v \<noteq> - 1 \<and> unat (eos_token_id v) < length (id_to_token v)
            then [eos_token_id v] else []))"
  by (simp add: tokenize_def tokenize_spm_empty tokenize_bpe_empty)

section \<open>SPM tokenization without segmentation\<close>

text \<open>
  Claim C5 as stated fails: on a non-empty text and an empty score table the unknown id is
  emitted only if it is set; with the unknown id unset the output is empty.
\<close>

theorem tokenize_spm_unusable_counterexample:
  "id_to_score store_no_scores = [] \<and> ''a'' \<noteq> []
   \<and> tokenize_spm store_no_scores ''a'' = Some []
   \<and> tokenize_spm store_no_scores ''a'' \<noteq> Some [unk_token_id store_no_scores]"
  by (simp add: store_no_scores_def SanaVocab_default_def tokenize_spm_def)

text \<open>
  Claim C5, amended. If the text is empty or the score table is empty, SPM tokenization
  returns the empty output, except that it returns the unknown id exactly once when the
  text is non-empty and the unknown id is set (not \<open>-1\<close>). The result depends on nothing
  else: no segmentation or merging takes place.
\<close>

theorem tokenize_spm_unusable:
  "text = [] \<or> id_to_score v = [] \<Longrightarrow>
   tokenize_spm v text =
     Some (if text \<noteq> [] \<and> unk_token_id v \<noteq> - 1 then [unk_token_id v] else [])"
  by (auto simp add: tokenize_spm_def)

theorem tokenize_spm_unusable_witness:
  "tokenize_spm store_no_scores ''ab'' = Some []
   \<and> tokenize_spm (store_no_scores\<lparr>unk_token_id := 7\<rparr>) ''ab'' = Some [7]
   \<and> tokenize_spm store_scored [] = Some []"
  using tokenize_spm_unusable [of "''ab''" store_no_scores]
    tokenize_spm_unusable [of "''ab''" "store_no_scores\<lparr>unk_token_id := 7\<rparr>"]
    tokenize_spm_unusable [of "[]" store_scored]
  by (simp add: store_no_scores_def store_scored_def SanaVocab_default_def)

lemma spm_segment_malformed:
  assumes "\<forall>i < length text. utf8_len_char (drop i text) (length text - i) = 0"
  shows "spm_segment text idx offs symbols = symbols"
  using assms
proof (induction "text" idx offs symbols rule: spm_segment.induct)
  case (1 t idx offs symbols)
  show ?case
  proof (cases "offs < length t")
    case True
    with "1.prems" have z: "utf8_len_char (drop offs t) (length t - offs) = 0" by simp
    from "1.IH"(1) [OF True refl z "1.prems"] True z show ?thesis
      by (simp add: spm_segment.simps [of t idx offs])
  next
    case False
    then show ?thesis by (simp add: spm_segment.simps [of t idx offs])
  qed
qed

text \<open>
  Claim C10. For an SPM store with a non-empty score table and a non-empty text in which
  code point decoding returns length 0 at every byte, SPM tokenization returns the empty
  sequence, whatever the unknown id is: the segmentation leaves no symbol.
\<close>

theorem tokenize_spm_malformed:
  assumes "id_to_score v \<noteq> []" and "text \<noteq> []"
    and "\<forall>i < length text. utf8_len_char (drop i text) (length text - i) = 0"
  shows "tokenize_spm v text = Some []"
  using assms by (simp add: tokenize_spm_def spm_segment_malformed)

theorem tokenize_spm_malformed_witness:
  "id_to_score store_scored \<noteq> [] \<and> unk_token_id store_scored \<noteq> - 1
   \<and> tokenize_spm store_scored [CHR 0x80, CHR 0xBF] = Some []"
proof -
  have "\<forall>i < length [CHR 0x80, CHR 0xBF].
      utf8_len_char (drop i [CHR 0x80, CHR 0xBF]) (length [CHR 0x80, CHR 0xBF] - i) = 0"
    by (simp add: utf8_len_char_def less_Suc_eq)
  from tokenize_spm_malformed [OF _ _ this, of store_scored]
  show ?thesis by (simp add: store_scored_def SanaVocab_default_def)
qed

section \<open>The staleness check of the SPM merge loop\<close>

lemma spm_merge_step_discard:
  assumes "index_out_of_range (bigram_left (queue_top q)) symbols
    \<or> index_out_of_range (bigram_right (queue_top q)) symbols
    \<or> bigram_stale symbols (queue_top q)"
  shows "spm_merge_step v text (symbols, q) = (symbols, queue_pop q)"
  using assms by (auto simp: spm_merge_step_def Let_def)

lemma spm_merge_step_apply:
  assumes "\<not> index_out_of_range (bigram_left (queue_top q)) symbols"
    and "\<not> index_out_of_range (bigram_right (queue_top q)) symbols"
    and "\<not> bigram_stale symbols (queue_top q)"
  shows "fst (spm_merge_step v text (symbols, q)) = spm_apply_merge symbols (queue_top q)"
  using assms by (simp add: spm_merge_step_def Let_def)

lemma sym_next_spm_apply_merge:
  assumes "\<not> index_out_of_range (bigram_left b) symbols"
    and "\<not> index_out_of_range (bigram_right b) symbols"
    and "i < length symbols"
  shows "sym_next (spm_apply_merge symbols b ! i) =
     (if i = nat (bigram_left b) then sym_next (symbols ! nat (bigram_right b))
      else sym_next (symbols ! i))"
  using assms
  by (simp add: spm_apply_merge_def Let_def index_out_of_range_def nth_list_update)

text \<open>
  Claim C2. One iteration of the merge loop pops the top candidate. The candidate is applied
  (the left symbol's length becomes the sum of the two lengths, the right symbol's length
  becomes 0, the left symbol takes over the right symbol's successor, every other length
  stays) if both its indices are in range, both symbols have a length above 0 and the two
  lengths add up to the size the candidate recorded. Otherwise the candidate is discarded:
  the symbols are unchanged and the queue has lost just that candidate.
\<close>

theorem merge_step_staleness_check:
  assumes "b = queue_top work_queue"
    and "l = nat (bigram_left b)" and "r = nat (bigram_right b)"
    and "state' = spm_merge_step v text (symbols, work_queue)"
  shows "(if \<not> index_out_of_range (bigram_left b) symbols
           \<and> \<not> index_out_of_range (bigram_right b) symbols
           \<and> sym_n (symbols ! l) > 0 \<and> sym_n (symbols ! r) > 0
           \<and> sym_n (symbols ! l) + sym_n (symbols ! r) = bigram_size b
        then length (fst state') = length symbols
           \<and> sym_n (fst state' ! r) = 0
           \<and> (l \<noteq> r \<longrightarrow> sym_n (fst state' ! l) = sym_n (symbols ! l) + sym_n (symbols ! r))
           \<and> sym_next (fst state' ! l) = sym_next (symbols ! r)
           \<and> (\<forall>i < length symbols. i \<noteq> l \<and> i \<noteq> r \<longrightarrow>
                 sym_n (fst state' ! i) = sym_n (symbols ! i))
        else state' = (symbols, queue_pop work_queue))"
proof (cases "\<not> index_out_of_range (bigram_left b) symbols
           \<and> \<not> index_out_of_range (bigram_right b) symbols
           \<and> sym_n (symbols ! l) > 0 \<and> sym_n (symbols ! r) > 0
           \<and> sym_n (symbols ! l) + sym_n (symbols ! r) = bigram_size b")
  case True
  then have ns: "\<not> bigram_stale symbols (queue_top work_queue)"
    using assms by (simp add: bigram_stale_def Let_def)
  from True assms have il: "\<not> index_out_of_range (bigram_left (queue_top work_queue)) symbols"
    and ir: "\<not> index_out_of_range (bigram_right (queue_top work_queue)) symbols" by simp_all
  have f: "fst state' = spm_apply_merge symbols b"
    using spm_merge_step_apply [OF il ir ns] assms by simp
  from True have lr: "l < length symbols" "r < length symbols"
    using assms by (auto simp: index_out_of_range_def)
  from True assms(1) il ir lr show ?thesis
    by (simp add: f sym_n_spm_apply_merge sym_next_spm_apply_merge assms(2,3))
next
  case False
  then have "index_out_of_range (bigram_left (queue_top work_queue)) symbols
    \<or> index_out_of_range (bigram_right (queue_top work_queue)) symbols
    \<or> bigram_stale symbols (queue_top work_queue)"
    using assms by (auto simp: bigram_stale_def Let_def)
  from spm_merge_step_discard [OF this] False assms show ?thesis by simp
qed

theorem merge_step_staleness_check_witness:
  "sym_n (fst (spm_merge_step store_scored ''abc'' (symbols_example, [bigram_fresh])) ! 0) = 2
   \<and> sym_n (fst (spm_merge_step store_scored ''abc'' (symbols_example, [bigram_fresh])) ! 1) = 0
   \<and> sym_n (fst (spm_merge_step store_scored ''abc'' (symbols_example, [bigram_fresh])) ! 2) = 1
   \<and> sym_next (fst (spm_merge_step store_scored ''abc'' (symbols_example, [bigram_fresh])) ! 0) = 2
   \<and> spm_merge_step store_scored ''abc'' (symbols_example, [bigram_outdated])
       = (symbols_example, [])"
  using
    merge_step_staleness_check [of bigram_outdated "[bigram_outdated]" 0 1 _ store_scored
      "''abc''" symbols_example, OF _ _ _ refl]
    merge_step_staleness_check [of bigram_fresh "[bigram_fresh]" 0 1 _ store_scored
      "''abc''" symbols_example, OF _ _ _ refl]
  by (simp add: bigram_fresh_def bigram_outdated_def symbols_example_def
      index_out_of_range_def queue_pop_def queue_top_def pop_heap_def)

section \<open>The BPE bootstrap shortcut\<close>

lemma unit_ids_simps [simp]:
  "unit_ids v (Some cp) = codepoint_ids v cp"
  "unit_ids v None = (if unk_token_id v \<noteq> - 1 then [unk_token_id v] else [])"
  by (simp_all add: unit_ids_def)

lemma emit_codepoints_units:
  "emit_codepoints v s k = concat (map (unit_ids v) (utf8_units s k))"
proof (induction v s k rule: emit_codepoints.induct)
  case (1 v s k)
  show ?case
  proof (cases "k < length s")
    case False
    then show ?thesis by (simp add: emit_codepoints.simps [of v s k] utf8_units.simps [of s k])
  next
    case True
    show ?thesis
    proof (cases "utf8_len_char (drop k s) (length s - k) = 0")
      case z: True
      from "1.IH"(1) [OF True refl z] True z show ?thesis
        by (simp add: emit_codepoints.simps [of v s k] utf8_units.simps [of s k])
    next
      case nz: False
      from "1.IH"(2) [OF True refl nz] True nz show ?thesis
        by (simp add: emit_codepoints.simps [of v s k] utf8_units.simps [of s k] Let_def
            codepoint_ids_def)
    qed
  qed
qed

lemma utf8_units_well_formed:
  "None \<notin> set (utf8_units s k) \<Longrightarrow> utf8_units s k = map Some (utf8_split s k)"
proof (induction s k rule: utf8_units.induct)
  case (1 s k)
  show ?case
  proof (cases "k < length s")
    case False
    then show ?thesis by (simp add: utf8_units.simps [of s k] utf8_split.simps [of s k])
  next
    case True
    show ?thesis
    proof (cases "utf8_len_char (drop k s) (length s - k) = 0")
      case z: True
      with True "1.prems" show ?thesis by (simp add: utf8_units.simps [of s k])
    next
      case nz: False
      from True nz "1.prems" have "None \<notin> set (utf8_units s (k + utf8_len_char (drop k s) (length s - k)))"
        by (simp add: utf8_units.simps [of s k] Let_def)
      from "1.IH"(2) [OF True refl nz this] True nz show ?thesis
        by (simp add: utf8_units.simps [of s k] utf8_split.simps [of s k] Let_def)
    qed
  qed
qed

text \<open>
  Claim C6 as stated fails on a byte that does not decode: it is no code point of the
  text, yet the bootstrap loop emits the unknown id for it.
\<close>

theorem tokenize_bpe_bootstrap_counterexample:
  "bpe_ranks store_bootstrap = [] \<and> length (id_to_token store_bootstrap) < 256
   \<and> tokenize_bpe matches_nothing store_bootstrap [CHR 0x80] = Some [2]
   \<and> per_codepoint_ids store_bootstrap [CHR 0x80] = []
   \<and> tokenize_bpe matches_nothing store_bootstrap [CHR 0x80]
       \<noteq> Some (per_codepoint_ids store_bootstrap [CHR 0x80])"
  by (simp add: store_bootstrap_def SanaVocab_default_def tokenize_bpe_def per_codepoint_ids_def
      emit_codepoints.simps utf8_split.simps utf8_len_char_def)

text \<open>
  Claim C6, amended. For a BPE store with an empty merge-rank table and fewer than 256
  vocabulary entries, BPE tokenization of any text skips pre-tokenization and merging (the
  result does not depend on the matcher or the ranks): the output is, in text order, for
  each decoded code point its vocabulary id, or the unknown id when it is unmapped and the
  unknown id is set, nothing when unset; and for each byte on which decoding returns
  length 0 the unknown id when set, nothing when unset. On a text in which every byte
  decodes, this is exactly the per-code-point sequence of the claim.
\<close>

theorem tokenize_bpe_bootstrap:
  assumes "bpe_ranks v = []" and "length (id_to_token v) < 256"
  shows "tokenize_bpe regex v text = Some (concat (map (unit_ids v) (utf8_units text 0)))
    \<and> (None \<notin> set (utf8_units text 0) \<longrightarrow>
          tokenize_bpe regex v text = Some (per_codepoint_ids v text))"
proof (intro conjI impI)
  have e: "utf8_units [] 0 = []" by (simp add: utf8_units.simps)
  show 1: "tokenize_bpe regex v text = Some (concat (map (unit_ids v) (utf8_units text 0)))"
    using assms by (simp add: tokenize_bpe_def emit_codepoints_units e)
  assume "None \<notin> set (utf8_units text 0)"
  from utf8_units_well_formed [OF this]
  show "tokenize_bpe regex v text = Some (per_codepoint_ids v text)"
    by (simp add: 1 per_codepoint_ids_def comp_def)
qed

lemma utf8_units_ab: "utf8_units ''ab'' 0 = [Some ''a'', Some ''b'']"
  by (simp add: utf8_units.simps utf8_len_char_def)

theorem tokenize_bpe_bootstrap_witness:
  "tokenize_bpe matches_whole store_bootstrap ''ab'' = Some [0, 1]
   \<and> per_codepoint_ids store_bootstrap ''ab'' = [0, 1]"
proof -
  have b: "bpe_ranks store_bootstrap = []" "length (id_to_token store_bootstrap) < 256"
    by (simp_all add: store_bootstrap_def SanaVocab_default_def)
  note t = tokenize_bpe_bootstrap [OF b, of matches_whole "''ab''"]
  have u: "concat (map (unit_ids store_bootstrap) (utf8_units ''ab'' 0)) = [0, 1]"
    by (simp add: utf8_units_ab store_bootstrap_def SanaVocab_default_def codepoint_ids_def)
  have n: "None \<notin> set (utf8_units ''ab'' 0)"
    by (simp add: utf8_units_ab)
  from t [THEN conjunct1]
  have 1: "tokenize_bpe matches_whole store_bootstrap ''ab'' = Some [0, 1]"
    by (simp only: u)
  from t [THEN conjunct2, rule_format, OF n]
  have 2: "tokenize_bpe matches_whole store_bootstrap ''ab''
      = Some (per_codepoint_ids store_bootstrap ''ab'')" .
  from 1 2 show ?thesis by simp
qed

section \<open>The BPE whole-word shortcut\<close>

lemma utf8_split_nonempty: "w \<in> set (utf8_split s k) \<Longrightarrow> w \<noteq> []"
proof (induction s k rule: utf8_split.induct)
  case (1 s k)
  show ?case
  proof (cases "k < length s")
    case False
    with "1.prems" show ?thesis by (simp add: utf8_split.simps [of s k])
  next
    case True
    show ?thesis
    proof (cases "utf8_len_char (drop k s) (length s - k) = 0")
      case z: True
      from "1.prems" True z have "w \<in> set (utf8_split s (k + 1))"
        by (simp add: utf8_split.simps [of s k])
      from "1.IH"(1) [OF True refl z this] show ?thesis .
    next
      case nz: False
      from "1.prems" True nz
      consider "w = take (utf8_len_char (drop k s) (length s - k)) (drop k s)"
        | "w \<in> set (utf8_split s (k + utf8_len_char (drop k s) (length s - k)))"
        by (auto simp: utf8_split.simps [of s k] Let_def)
      then show ?thesis
      proof cases
        case 1
        with True nz show ?thesis by simp
      next
        case 2
        from "1.IH"(2) [OF True refl nz this] show ?thesis .
      qed
    qed
  qed
qed

lemma bpe_pre_tokenize_gpt2_nonempty:
  "w \<in> set (bpe_pre_tokenize_gpt2 matches text) \<Longrightarrow> w \<noteq> []"
  by (auto simp: bpe_pre_tokenize_gpt2_def Let_def dest: utf8_split_nonempty split: if_splits)

text \<open>
  Claim C7. Past the bootstrap shortcut, BPE tokenization is the concatenation of what
  \<open>bpe_word\<close> emits for each pre-token. For every pre-token whose whole string is a key
  of \<open>token_to_id\<close>, exactly that entry's id is emitted, whatever the merge ranks are.
\<close>

theorem bpe_whole_word_shortcut:
  assumes "w \<in> set (bpe_pre_tokenize_gpt2 matches text)"
    and "map_of (token_to_id v) w = Some i"
  shows "bpe_word (v\<lparr>bpe_ranks := ranks\<rparr>) w = [i]"
  using assms bpe_pre_tokenize_gpt2_nonempty [of w matches "text"]
  by (simp add: bpe_word_def)

lemma pre_tokenize_hello: "bpe_pre_tokenize_gpt2 [''hello''] ''hello'' = [''hello'']"
  by (simp add: bpe_pre_tokenize_gpt2_def)

theorem bpe_whole_word_shortcut_witness:
  "''hello'' \<in> set (bpe_pre_tokenize_gpt2 [''hello''] ''hello'')
   \<and> map_of (token_to_id store_hello) ''hello'' = Some 6
   \<and> bpe_word store_hello ''hello'' = [6]
   \<and> tokenize_bpe matches_whole store_hello ''hello'' = Some [6]"
proof -
  have m: "''hello'' \<in> set (bpe_pre_tokenize_gpt2 [''hello''] ''hello'')"
    by (simp add: pre_tokenize_hello)
  have t: "map_of (token_to_id store_hello) ''hello'' = Some 6"
    by (simp add: store_hello_def)
  have r: "store_hello\<lparr>bpe_ranks := bpe_ranks store_hello\<rparr> = store_hello" by simp
  have ne: "bpe_ranks store_hello \<noteq> []"
    by (simp add: store_hello_def)
  from bpe_whole_word_shortcut [OF m t, of "bpe_ranks store_hello"] m t ne show ?thesis
    by (simp add: r tokenize_bpe_def pre_tokenize_hello matches_whole_def)
qed

lemma utf8_split_hello: "utf8_split ''hello'' 0 = [''h'', ''e'', ''l'', ''l'', ''o'']"
  by (simp add: utf8_split.simps utf8_len_char_def)

lemma bpe_hello_by_merges:
  "bpe_merge_loop (map_of (bpe_ranks store_hello)) (utf8_split ''hello'' 0) = [''he'', ''llo'']"
  by (simp add: utf8_split_hello store_hello_def bpe_merge_loop.simps bpe_merge_once_def
      bpe_scan.simps)

section \<open>The BPE merge scan\<close>

lemma scan_inv_step_none:
  assumes "scan_inv ranks toks j best" and "ranks (toks ! j, toks ! (j + 1)) = None"
  shows "scan_inv ranks toks (j + 1) best"
  using assms by (auto simp: scan_inv_def less_Suc_eq)

lemma scan_inv_step_keep:
  assumes "scan_inv ranks toks j best" and "ranks (toks ! j, toks ! (j + 1)) = Some r"
    and "\<not> (fst best = - 1 \<or> r < fst best)"
  shows "scan_inv ranks toks (j + 1) best"
  using assms by (auto simp: scan_inv_def less_Suc_eq)

lemma scan_inv_step_new:
  assumes "scan_inv ranks toks j best" and "ranks (toks ! j, toks ! (j + 1)) = Some r"
    and "fst best = - 1 \<or> r < fst best" and "r \<noteq> - 1"
  shows "scan_inv ranks toks (j + 1) (r, int j)"
  using assms by (fastforce simp: scan_inv_def less_Suc_eq split: if_splits)

lemma bpe_scan_inv:
  assumes "\<forall>p r. ranks p = Some r \<longrightarrow> r \<noteq> - 1"
    and "j \<le> length toks - 1" and "scan_inv ranks toks j best"
  shows "scan_inv ranks toks (length toks - 1) (bpe_scan ranks toks j best)"
  using assms
proof (induction ranks toks j best rule: bpe_scan.induct)
  case (1 ranks toks j best)
  show ?case
  proof (cases "j < length toks - 1")
    case False
    then have "bpe_scan ranks toks j best = best"
      by (subst bpe_scan.simps) simp
    moreover from False "1.prems"(2) have "j = length toks - 1" by simp
    ultimately show ?thesis using "1.prems"(3) by simp
  next
    case True
    then have le: "j + 1 \<le> length toks - 1" by simp
    show ?thesis
    proof (cases "ranks (toks ! j, toks ! (j + 1))")
      case None
      from "1.IH"(1) [OF True None "1.prems"(1) le scan_inv_step_none [OF "1.prems"(3) None]]
        True None show ?thesis
        by (simp add: bpe_scan.simps [of ranks toks j])
    next
      case (Some r)
      show ?thesis
      proof (cases "fst best = - 1 \<or> r < fst best")
        case new: True
        from "1.prems"(1) Some have "r \<noteq> - 1" by blast
        from "1.IH"(2) [OF True Some new "1.prems"(1) le
            scan_inv_step_new [OF "1.prems"(3) Some new this]]
          True Some new show ?thesis
          by (simp add: bpe_scan.simps [of ranks toks j])
      next
        case old: False
        from "1.IH"(3) [OF True Some old "1.prems"(1) le
            scan_inv_step_keep [OF "1.prems"(3) Some old]]
          True Some old show ?thesis
          by (simp add: bpe_scan.simps [of ranks toks j])
      qed
    qed
  qed
qed

text \<open>
  Claim C9. In one pass of the BPE merge loop over pieces of which some adjacent pair has a
  rank, the pair merged has the least rank of all adjacent pairs and is the leftmost pair
  of that rank; the pass replaces exactly that pair by its concatenation. The ranks are
  those of a loaded store: none is \<open>-1\<close>, the scan's mark for "nothing found yet".
\<close>

theorem bpe_merge_leftmost_minimum:
  assumes "\<forall>p r. ranks p = Some r \<longrightarrow> r \<noteq> - 1"
    and "j < length sub_tokens - 1"
    and "ranks (sub_tokens ! j, sub_tokens ! (j + 1)) = Some r"
    and "best = bpe_scan ranks sub_tokens 0 (- 1, - 1)"
    and "i = nat (snd best)"
  shows "0 \<le> snd best \<and> i < length sub_tokens - 1
    \<and> ranks (sub_tokens ! i, sub_tokens ! (i + 1)) = Some (fst best)
    \<and> (\<forall>j' < length sub_tokens - 1. \<forall>r'.
          ranks (sub_tokens ! j', sub_tokens ! (j' + 1)) = Some r' \<longrightarrow>
            fst best \<le> r' \<and> (r' = fst best \<longrightarrow> i \<le> j'))
    \<and> bpe_merge_once ranks sub_tokens =
        Some (take i sub_tokens @ [sub_tokens ! i @ sub_tokens ! (i + 1)]
              @ drop (i + 2) sub_tokens)"
proof -
  have "scan_inv ranks sub_tokens 0 (- 1, - 1)" by (simp add: scan_inv_def)
  from bpe_scan_inv [OF assms(1) _ this]
  have inv: "scan_inv ranks sub_tokens (length sub_tokens - 1) best"
    using assms(4) by simp
  have ne: "fst best \<noteq> - 1"
  proof
    assume "fst best = - 1"
    with inv assms(2) have "ranks (sub_tokens ! j, sub_tokens ! (j + 1)) = None"
      by (simp add: scan_inv_def)
    with assms(3) show False by simp
  qed
  with inv assms(5) have
    "0 \<le> snd best \<and> i < length sub_tokens - 1
    \<and> ranks (sub_tokens ! i, sub_tokens ! (i + 1)) = Some (fst best)
    \<and> (\<forall>j' < length sub_tokens - 1. \<forall>r'.
          ranks (sub_tokens ! j', sub_tokens ! (j' + 1)) = Some r' \<longrightarrow>
            fst best \<le> r' \<and> (r' = fst best \<longrightarrow> i \<le> j'))"
    by (simp add: scan_inv_def)
  moreover have "bpe_merge_once ranks sub_tokens =
        Some (take i sub_tokens @ [sub_tokens ! i @ sub_tokens ! (i + 1)]
              @ drop (i + 2) sub_tokens)"
    using ne assms(4,5) by (simp add: bpe_merge_once_def Let_def)
  ultimately show ?thesis by blast
qed

lemma bpe_scan_abab: "bpe_scan ranks_ab [''a'', ''b'', ''a'', ''b''] 0 (- 1, - 1) = (0, 0)"
  by (simp add: bpe_scan.simps ranks_ab_def)

theorem bpe_merge_leftmost_minimum_witness:
  "ranks_ab ([''a'', ''b'', ''a'', ''b''] ! 0, [''a'', ''b'', ''a'', ''b''] ! 1) = Some 0
   \<and> ranks_ab ([''a'', ''b'', ''a'', ''b''] ! 2, [''a'', ''b'', ''a'', ''b''] ! 3) = Some 0
   \<and> bpe_merge_once ranks_ab [''a'', ''b'', ''a'', ''b''] = Some [''ab'', ''a'', ''b'']"
proof -
  have 1: "\<forall>p r. ranks_ab p = Some r \<longrightarrow> r \<noteq> - 1"
    by (auto simp: ranks_ab_def split: if_splits)
  have 2: "(2::nat) < length [''a'', ''b'', ''a'', ''b''] - 1" by simp
  have 3: "ranks_ab ([''a'', ''b'', ''a'', ''b''] ! 2, [''a'', ''b'', ''a'', ''b''] ! (2 + 1))
      = Some 0"
    by (simp add: ranks_ab_def)
  have 4: "ranks_ab (''a'', ''b'') = Some 0"
    by (simp add: ranks_ab_def)
  from bpe_merge_leftmost_minimum [OF 1 2 3 refl refl] show ?thesis
    unfolding bpe_scan_abab by (simp add: 4)
qed

lemma sentinel_free_index:
  assumes "i < 2 ^ 32 - 1"
  shows "sint (word_of_nat i :: 32 word) \<noteq> - 1"
proof
  assume "sint (word_of_nat i :: 32 word) = - 1"
  then have "sint (word_of_nat i :: 32 word) = sint (- 1 :: 32 word)" by simp
  then have "(word_of_nat i :: 32 word) = - 1" by (rule signed_word_eqI)
  then have "unat (word_of_nat i :: 32 word) = unat (- 1 :: 32 word)" by simp
  then have "i mod 2 ^ 32 = 2 ^ 32 - 1"
    by (simp add: unat_of_nat unsigned_minus_1_eq_mask mask_eq_exp_minus_1)
  with assms show False by simp
qed

lemma map_of_alist_update [simp]: "map_of (AList.update k x al) = (map_of al)(k \<mapsto> x)"
  by (rule update_conv')

lemma load_merge_ranks:
  assumes "\<forall>p r. map_of (bpe_ranks v) p = Some r \<longrightarrow> r \<noteq> - 1" and "i < 2 ^ 32 - 1"
  shows "\<forall>p r. map_of (bpe_ranks (load_merge merges i v)) p = Some r \<longrightarrow> r \<noteq> - 1"
  using assms sentinel_free_index [OF assms(2)]
  by (auto simp: load_merge_def Let_def split: if_splits)

lemma fold_load_merge_ranks:
  assumes "\<forall>p r. map_of (bpe_ranks v) p = Some r \<longrightarrow> r \<noteq> - 1" and "\<forall>i \<in> set is. i < 2 ^ 32 - 1"
  shows "\<forall>p r. map_of (bpe_ranks (fold (load_merge merges) is v)) p = Some r \<longrightarrow> r \<noteq> - 1"
  using assms
proof (induction "is" arbitrary: v)
  case Nil
  then show ?case by simp
next
  case (Cons i "is")
  from Cons.prems have "\<forall>p r. map_of (bpe_ranks (load_merge merges i v)) p = Some r \<longrightarrow> r \<noteq> - 1"
    by (intro load_merge_ranks) simp_all
  from Cons.IH [OF this] Cons.prems(2) show ?case by simp
qed

lemma bpe_ranks_load_token [simp]:
  "bpe_ranks (load_token scores i tok v) = bpe_ranks v"
  by (simp add: load_token_def Let_def split: option.splits)

lemma bpe_ranks_load_tokens [simp]:
  "bpe_ranks (snd (load_tokens scores tokens i v)) = bpe_ranks v"
  by (induction scores tokens i v rule: load_tokens.induct) simp_all

lemma load_model_ranks:
  assumes "\<forall>p r. map_of (bpe_ranks v) p = Some r \<longrightarrow> r \<noteq> - 1"
  shows "\<forall>p r. map_of (bpe_ranks (load_model ctx v)) p = Some r \<longrightarrow> r \<noteq> - 1"
proof -
  have m: "\<forall>i \<in> set [0..<n mod 2 ^ 32]. i < 2 ^ 32 - 1" for n :: nat
  proof -
    have "n mod 2 ^ 32 < (2 ^ 32 :: nat)" by simp
    then show ?thesis by auto
  qed
  have f: "\<forall>p r. map_of (bpe_ranks (fold (load_merge ms) [0..<length ms mod 2 ^ 32]
      (v\<lparr>type := BPE, bpe_merges := X\<rparr>))) p = Some r \<longrightarrow> r \<noteq> - 1" for ms X
    by (rule fold_load_merge_ranks) (use assms m in simp_all)
  show ?thesis
  proof (cases "gguf_model ctx")
    case None
    with assms show ?thesis by (simp add: load_model_def)
  next
    case model: (Some model_name)
    show ?thesis
    proof (cases "gguf_merges ctx")
      case None
      with model assms show ?thesis by (simp add: load_model_def)
    next
      case (Some ms)
      with model assms f [of ms] show ?thesis by (simp add: load_model_def Let_def)
    qed
  qed
qed

lemma bpe_ranks_load_scores [simp]:
  "bpe_ranks (snd (load_scores ctx n v)) = bpe_ranks v"
  by (simp add: load_scores_def split: option.splits prod.splits)

lemma bpe_ranks_load_special_tokens [simp]:
  "bpe_ranks (load_special_tokens ctx v) = bpe_ranks v"
  by (simp add: load_special_tokens_def Let_def)

text \<open>
  The loader never stores the rank \<open>-1\<close>, the value with which the merge scan marks
  "no pair found yet": a rank is an index below a \<^verbatim>\<open>uint32_t\<close> count.
\<close>

lemma load_from_gguf_ranks:
  assumes "\<forall>p r. map_of (bpe_ranks v) p = Some r \<longrightarrow> r \<noteq> - 1"
  shows "\<forall>p r. map_of (bpe_ranks (snd (load_from_gguf ctx v))) p = Some r \<longrightarrow> r \<noteq> - 1"
proof (cases "gguf_tokens ctx")
  case None
  with assms show ?thesis by (simp add: load_from_gguf_def)
next
  case (Some tokens)
  with load_model_ranks [OF assms, of ctx] show ?thesis
    by (simp add: load_from_gguf_def Let_def)
qed

section \<open>Duplicate tokens in the loader\<close>

lemma last_occurrence_exists:
  "s \<in> set ts \<Longrightarrow> \<exists>j<length ts. ts ! j = s \<and> (\<forall>k<length ts. j < k \<longrightarrow> ts ! k \<noteq> s)"
proof (induction ts)
  case Nil
  then show ?case by simp
next
  case (Cons t ts)
  show ?case
  proof (cases "s \<in> set ts")
    case True
    from Cons.IH [OF this] obtain j where j: "j < length ts" "ts ! j = s"
      "\<forall>k<length ts. j < k \<longrightarrow> ts ! k \<noteq> s" by blast
    then have "Suc j < length (t # ts) \<and> (t # ts) ! Suc j = s
      \<and> (\<forall>k<length (t # ts). Suc j < k \<longrightarrow> (t # ts) ! k \<noteq> s)"
      by (simp add: All_less_Suc2)
    then show ?thesis by blast
  next
    case False
    with Cons.prems have "t = s" by simp
    moreover from False have "\<forall>k<length ts. ts ! k \<noteq> s" by auto
    ultimately have "0 < length (t # ts) \<and> (t # ts) ! 0 = s
      \<and> (\<forall>k<length (t # ts). 0 < k \<longrightarrow> (t # ts) ! k \<noteq> s)"
      by (simp add: All_less_Suc2)
    then show ?thesis by blast
  qed
qed

lemma token_to_id_load_token [simp]:
  "token_to_id (load_token scores i t v) = AList.update t (word_of_nat i) (token_to_id v)"
  by (simp add: load_token_def Let_def split: option.splits)

lemma id_to_token_load_token [simp]:
  "id_to_token (load_token scores i t v) = (id_to_token v)[i := t]"
  by (simp add: load_token_def Let_def split: option.splits)

lemma load_tokens_ok [simp]: "fst (load_tokens scores (map Some ts) i v)"
  by (induction ts arbitrary: i v) simp_all

lemma load_tokens_other:
  "s \<notin> set ts \<Longrightarrow>
   map_of (token_to_id (snd (load_tokens scores (map Some ts) i v))) s = map_of (token_to_id v) s"
  by (induction ts arbitrary: i v) simp_all

lemma load_tokens_last:
  assumes "j < length ts" and "\<forall>k<length ts. j < k \<longrightarrow> ts ! k \<noteq> ts ! j"
  shows "map_of (token_to_id (snd (load_tokens scores (map Some ts) i v))) (ts ! j)
    = Some (word_of_nat (i + j))"
  using assms
proof (induction ts arbitrary: i j v)
  case Nil
  then show ?case by simp
next
  case (Cons t ts)
  show ?case
  proof (cases j)
    case 0
    with Cons.prems(2) have "\<forall>k<length ts. ts ! k \<noteq> t" by (simp add: All_less_Suc2)
    then have "t \<notin> set ts" by (auto simp: in_set_conv_nth)
    from load_tokens_other [OF this] 0 show ?thesis by simp
  next
    case (Suc j')
    with Cons.prems have "j' < length ts" "\<forall>k<length ts. j' < k \<longrightarrow> ts ! k \<noteq> ts ! j'"
      by (simp_all add: All_less_Suc2)
    from Cons.IH [OF this] Suc show ?thesis by simp
  qed
qed

lemma load_tokens_id_to_token:
  "i + length ts \<le> length (id_to_token v) \<Longrightarrow>
   id_to_token (snd (load_tokens scores (map Some ts) i v))
     = take i (id_to_token v) @ ts @ drop (i + length ts) (id_to_token v)"
proof (induction ts arbitrary: i v)
  case Nil
  then show ?case by simp
next
  case (Cons t ts)
  from Cons.prems have "Suc i + length ts \<le> length (id_to_token (load_token scores i t v))"
    by simp
  from Cons.IH [OF this] Cons.prems show ?case
    by (simp add: take_Suc_conv_app_nth)
qed

lemma load_merge_keeps [simp]:
  "token_to_id (load_merge ms i v) = token_to_id v"
  "id_to_token (load_merge ms i v) = id_to_token v"
  by (simp_all add: load_merge_def Let_def)

lemma fold_load_merge_keeps [simp]:
  "token_to_id (fold (load_merge ms) is v) = token_to_id v"
  "id_to_token (fold (load_merge ms) is v) = id_to_token v"
  by (induction "is" arbitrary: v) simp_all

lemma length_resize [simp]: "length (resize n d xs) = n"
  by (simp add: resize_def)

lemma load_model_keeps [simp]:
  "token_to_id (load_model ctx v) = token_to_id v"
  "id_to_token (load_model ctx v) = id_to_token v"
  by (simp_all add: load_model_def Let_def split: option.splits)

lemma load_scores_keeps [simp]:
  "token_to_id (snd (load_scores ctx n v)) = token_to_id v"
  "id_to_token (snd (load_scores ctx n v)) = id_to_token v"
  by (simp_all add: load_scores_def split: option.splits prod.splits)

lemma load_special_tokens_keeps [simp]:
  "token_to_id (load_special_tokens ctx v) = token_to_id v"
  "id_to_token (load_special_tokens ctx v) = id_to_token v"
  by (simp_all add: load_special_tokens_def Let_def)

lemma load_from_gguf_shape:
  assumes "gguf_tokens ctx = Some (map Some toks)" and "length toks < 2 ^ 32"
  shows "\<exists>scores v2. token_to_id v2 = token_to_id v
    \<and> id_to_token v2 = resize (length toks) [] (id_to_token v)
    \<and> fst (load_from_gguf ctx v)
    \<and> token_to_id (snd (load_from_gguf ctx v))
        = token_to_id (snd (load_tokens scores (map Some toks) 0 v2))
    \<and> id_to_token (snd (load_from_gguf ctx v))
        = id_to_token (snd (load_tokens scores (map Some toks) 0 v2))"
proof -
  let ?v2 = "(load_model ctx v)\<lparr>id_to_token := resize (length toks) [] (id_to_token v)\<rparr>"
  let ?st = "load_scores ctx (length toks) ?v2"
  have n: "length toks mod 4294967296 = length toks" using assms(2) by simp
  have l: "load_from_gguf ctx v =
    (True, load_special_tokens ctx (snd (load_tokens (fst ?st) (map Some toks) 0 (snd ?st))))"
    by (simp add: load_from_gguf_def assms(1) n Let_def)
  show ?thesis
    apply (rule exI [of _ "fst ?st"])
    apply (rule exI [of _ "snd ?st"])
    apply (simp add: l)
    done
qed

text \<open>
  Claim C8. Loading a token array (of fewer than \<open>2 ^ 32\<close> non-null strings) into a
  fresh vocabulary succeeds; \<open>id_to_token\<close> is the array, every occurrence at its
  index; \<open>token_to_id\<close> maps each string to the index of its last occurrence; and an
  index at which a string occurs that occurs again later is the value of no key.
\<close>

theorem load_duplicate_tokens:
  assumes "gguf_tokens ctx = Some (map Some toks)" and "length toks < 2 ^ 32"
    and "v' = snd (load_from_gguf ctx SanaVocab_default)"
  shows "fst (load_from_gguf ctx SanaVocab_default)
    \<and> id_to_token v' = toks
    \<and> (\<forall>j<length toks. (\<forall>k<length toks. j < k \<longrightarrow> toks ! k \<noteq> toks ! j) \<longrightarrow>
          map_of (token_to_id v') (toks ! j) = Some (word_of_nat j))
    \<and> (\<forall>j<length toks. (\<exists>k<length toks. j < k \<and> toks ! k = toks ! j) \<longrightarrow>
          (\<forall>s. map_of (token_to_id v') s \<noteq> Some (word_of_nat j)))"
proof -
  from load_from_gguf_shape [OF assms(1,2), of SanaVocab_default]
  obtain scores v2 where v2: "token_to_id v2 = []"
    "id_to_token v2 = resize (length toks) [] []"
    and ok: "fst (load_from_gguf ctx SanaVocab_default)"
    and t: "token_to_id v' = token_to_id (snd (load_tokens scores (map Some toks) 0 v2))"
    and i: "id_to_token v' = id_to_token (snd (load_tokens scores (map Some toks) 0 v2))"
    unfolding assms(3) by (auto simp: SanaVocab_default_def)
  have ids: "id_to_token v' = toks"
    unfolding i by (subst load_tokens_id_to_token) (simp_all add: v2)
  have last: "map_of (token_to_id v') (toks ! j) = Some (word_of_nat j)"
    if "j < length toks" "\<forall>k<length toks. j < k \<longrightarrow> toks ! k \<noteq> toks ! j" for j
    unfolding t using load_tokens_last [OF that, of scores 0 v2] by simp
  have unreachable: "map_of (token_to_id v') s \<noteq> Some (word_of_nat j)"
    if j: "j < length toks" and k: "k < length toks" "j < k" "toks ! k = toks ! j" for j k s
  proof
    assume eq: "map_of (token_to_id v') s = Some (word_of_nat j)"
    have "s \<in> set toks"
    proof (rule ccontr)
      assume "s \<notin> set toks"
      from load_tokens_other [OF this, of scores 0 v2] eq show False
        by (simp add: t v2)
    qed
    from last_occurrence_exists [OF this] obtain j' where j': "j' < length toks"
      "toks ! j' = s" "\<forall>k<length toks. j' < k \<longrightarrow> toks ! k \<noteq> s" by blast
    with last [of j'] eq have "(word_of_nat j' :: 32 word) = word_of_nat j" by simp
    then have "take_bit 32 j' = take_bit 32 j" by (simp add: word_of_nat_eq_iff)
    with j j' assms(2) have "j' = j" by (simp add: take_bit_nat_eq_self)
    with j' k show False by auto
  qed
  from ok ids last unreachable show ?thesis by blast
qed

theorem load_duplicate_tokens_witness:
  "fst (load_from_gguf ctx_duplicates SanaVocab_default)
   \<and> id_to_token (snd (load_from_gguf ctx_duplicates SanaVocab_default)) = [''a'', ''b'', ''a'']
   \<and> map_of (token_to_id (snd (load_from_gguf ctx_duplicates SanaVocab_default))) ''a'' = Some 2
   \<and> (\<forall>s. map_of (token_to_id (snd (load_from_gguf ctx_duplicates SanaVocab_default))) s \<noteq> Some 0)"
proof -
  have 1: "gguf_tokens ctx_duplicates = Some (map Some [''a'', ''b'', ''a''])"
    by (simp add: ctx_duplicates_def)
  have 2: "length [''a'', ''b'', ''a''] < (2 :: nat) ^ 32" by simp
  note t = load_duplicate_tokens [OF 1 2 refl]
  note last = t [THEN conjunct2, THEN conjunct2, THEN conjunct1, rule_format]
  note unreachable = t [THEN conjunct2, THEN conjunct2, THEN conjunct2, rule_format]
  from t have a: "fst (load_from_gguf ctx_duplicates SanaVocab_default)"
    and b: "id_to_token (snd (load_from_gguf ctx_duplicates SanaVocab_default))
      = [''a'', ''b'', ''a'']"
    by simp_all
  have c: "map_of (token_to_id (snd (load_from_gguf ctx_duplicates SanaVocab_default))) ''a'' = Some 2"
    using last [of 2] by simp
  have e: "\<exists>k<length [''a'', ''b'', ''a''].
      0 < k \<and> [''a'', ''b'', ''a''] ! k = [''a'', ''b'', ''a''] ! 0"
    by (rule exI [of _ 2]) simp
  have d: "map_of (token_to_id (snd (load_from_gguf ctx_duplicates SanaVocab_default))) s \<noteq> Some 0"
    for s
    using unreachable [of 0 s, OF _ e] by simp
  from a b c d show ?thesis by simp
qed

section \<open>SPM tokenization on a scored store: the merge loop and the output\<close>

lemma links_invD:
  assumes "links_inv symbols"
  shows "0 \<in> spm_alive symbols"
    and "\<And>i. i \<in> spm_alive symbols \<Longrightarrow> sym_next (symbols ! i) \<noteq> - 1 \<Longrightarrow>
          int i < sym_next (symbols ! i) \<and> nat (sym_next (symbols ! i)) \<in> spm_alive symbols"
    and "\<And>i i'. i \<in> spm_alive symbols \<Longrightarrow> i' \<in> spm_alive symbols \<Longrightarrow>
          sym_next (symbols ! i) = sym_next (symbols ! i') \<Longrightarrow>
          sym_next (symbols ! i) \<noteq> - 1 \<Longrightarrow> i = i'"
    and "\<And>i. i \<in> spm_alive symbols \<Longrightarrow> 0 \<le> sym_prev (symbols ! i) \<Longrightarrow>
          nat (sym_prev (symbols ! i)) \<in> spm_alive symbols \<Longrightarrow>
          sym_prev (symbols ! i) < int i
          \<and> sym_next (symbols ! nat (sym_prev (symbols ! i))) = int i"
  using assms unfolding links_inv_def by blast+

lemma links_inv_merge:
  assumes inv: "links_inv symbols"
    and L: "L \<in> spm_alive symbols" and R: "R \<in> spm_alive symbols" and LR: "L < R"
    and nL: "sym_next (symbols ! L) = int R"
    and alive': "spm_alive symbols' = spm_alive symbols - {R}"
    and next': "\<And>i. i < length symbols \<Longrightarrow> sym_next (symbols' ! i) =
          (if i = L then sym_next (symbols ! R) else sym_next (symbols ! i))"
    and prev': "\<And>i. i < length symbols \<Longrightarrow> sym_prev (symbols' ! i) =
          (if sym_next (symbols ! R) \<noteq> - 1
              \<and> \<not> index_out_of_range (sym_next (symbols ! R)) symbols
              \<and> i = nat (sym_next (symbols ! R))
           then int L else sym_prev (symbols ! i))"
  shows "links_inv symbols'"
proof -
  note d = links_invD [OF inv]
  have lt: "i < length symbols" if "i \<in> spm_alive symbols" for i
    using that by (simp add: spm_alive_def)
  have nR: "sym_next (symbols ! R) \<noteq> - 1 \<Longrightarrow>
      int R < sym_next (symbols ! R) \<and> nat (sym_next (symbols ! R)) \<in> spm_alive symbols"
    using d(2) [OF R] .
  have inR: "\<not> index_out_of_range (sym_next (symbols ! R)) symbols"
    if "sym_next (symbols ! R) \<noteq> - 1"
  proof -
    from nR [OF that] have "int R < sym_next (symbols ! R)"
      and "nat (sym_next (symbols ! R)) < length symbols" by (simp_all add: lt)
    then show ?thesis by (simp add: index_out_of_range_def)
  qed
  have 1: "0 \<in> spm_alive symbols'"
    using d(1) LR by (simp add: alive')
  have 2: "int i < sym_next (symbols' ! i) \<and> nat (sym_next (symbols' ! i)) \<in> spm_alive symbols'"
    if i: "i \<in> spm_alive symbols'" and ne: "sym_next (symbols' ! i) \<noteq> - 1" for i
  proof (cases "i = L")
    case True
    with ne next' [OF lt [OF L]] have "sym_next (symbols ! R) \<noteq> - 1" by simp
    from nR [OF this] True LR next' [OF lt [OF L]] show ?thesis
      by (auto simp: alive')
  next
    case False
    from i have ia: "i \<in> spm_alive symbols" and iR: "i \<noteq> R" by (simp_all add: alive')
    from False next' [OF lt [OF ia]] have e: "sym_next (symbols' ! i) = sym_next (symbols ! i)"
      by simp
    with ne d(2) [OF ia] have s: "int i < sym_next (symbols ! i)"
      "nat (sym_next (symbols ! i)) \<in> spm_alive symbols" by simp_all
    have "nat (sym_next (symbols ! i)) \<noteq> R"
    proof
      assume "nat (sym_next (symbols ! i)) = R"
      with s(1) have "sym_next (symbols ! i) = sym_next (symbols ! L)" by (simp add: nL)
      from d(3) [OF ia L this] ne e False show False by simp
    qed
    with s e show ?thesis by (simp add: alive')
  qed
  have 3: "i = i'"
    if i: "i \<in> spm_alive symbols'" and i': "i' \<in> spm_alive symbols'"
      and eq: "sym_next (symbols' ! i) = sym_next (symbols' ! i')"
      and ne: "sym_next (symbols' ! i) \<noteq> - 1" for i i'
  proof -
    from i i' have a: "i \<in> spm_alive symbols" "i \<noteq> R" "i' \<in> spm_alive symbols" "i' \<noteq> R"
      by (simp_all add: alive')
    consider "i = L" "i' = L" | "i = L" "i' \<noteq> L" | "i \<noteq> L" "i' = L" | "i \<noteq> L" "i' \<noteq> L"
      by blast
    then show ?thesis
    proof cases
      case 1
      then show ?thesis by simp
    next
      case 2
      with eq ne next' [OF lt [OF a(1)]] next' [OF lt [OF a(3)]]
      have "sym_next (symbols ! R) = sym_next (symbols ! i')" "sym_next (symbols ! R) \<noteq> - 1"
        by simp_all
      from d(3) [OF R a(3) this] a(4) show ?thesis by simp
    next
      case 3
      with eq ne next' [OF lt [OF a(1)]] next' [OF lt [OF a(3)]]
      have "sym_next (symbols ! i) = sym_next (symbols ! R)" "sym_next (symbols ! i) \<noteq> - 1"
        by simp_all
      from d(3) [OF a(1) R this] a(2) show ?thesis by simp
    next
      case 4
      with eq ne next' [OF lt [OF a(1)]] next' [OF lt [OF a(3)]]
      have "sym_next (symbols ! i) = sym_next (symbols ! i')" "sym_next (symbols ! i) \<noteq> - 1"
        by simp_all
      from d(3) [OF a(1) a(3) this] show ?thesis .
    qed
  qed
  have 4: "sym_prev (symbols' ! i) < int i
      \<and> sym_next (symbols' ! nat (sym_prev (symbols' ! i))) = int i"
    if i: "i \<in> spm_alive symbols'" and p0: "0 \<le> sym_prev (symbols' ! i)"
      and pa: "nat (sym_prev (symbols' ! i)) \<in> spm_alive symbols'" for i
  proof -
    from i have ia: "i \<in> spm_alive symbols" and iR: "i \<noteq> R" by (simp_all add: alive')
    show ?thesis
    proof (cases "sym_next (symbols ! R) \<noteq> - 1 \<and> i = nat (sym_next (symbols ! R))")
      case True
      then have ne: "sym_next (symbols ! R) \<noteq> - 1" and ii: "i = nat (sym_next (symbols ! R))"
        by simp_all
      from prev' [OF lt [OF ia]] True inR [OF ne] have p: "sym_prev (symbols' ! i) = int L"
        by simp
      from nR [OF ne] ii LR have "int L < int i" "sym_next (symbols ! R) = int i" by simp_all
      with p next' [OF lt [OF L]] show ?thesis by simp
    next
      case False
      with prev' [OF lt [OF ia]] have p: "sym_prev (symbols' ! i) = sym_prev (symbols ! i)"
        by auto
      from pa p have pa': "nat (sym_prev (symbols ! i)) \<in> spm_alive symbols"
        and pR: "nat (sym_prev (symbols ! i)) \<noteq> R" by (simp_all add: alive')
      from d(4) [OF ia _ pa'] p0 p have o: "sym_prev (symbols ! i) < int i"
        "sym_next (symbols ! nat (sym_prev (symbols ! i))) = int i" by simp_all
      have "nat (sym_prev (symbols ! i)) \<noteq> L"
      proof
        assume "nat (sym_prev (symbols ! i)) = L"
        with o(2) nL iR show False by simp
      qed
      with next' [OF lt [OF pa']] o p show ?thesis by simp
    qed
  qed
  show ?thesis
    unfolding links_inv_def using 1 2 3 4 by blast
qed

lemma sym_prev_spm_apply_merge:
  assumes "\<not> index_out_of_range (bigram_left b) symbols"
    and "\<not> index_out_of_range (bigram_right b) symbols"
    and "nat (bigram_left b) \<noteq> nat (bigram_right b)"
    and "i < length symbols"
  shows "sym_prev (spm_apply_merge symbols b ! i) =
     (if sym_next (symbols ! nat (bigram_right b)) \<noteq> - 1
         \<and> \<not> index_out_of_range (sym_next (symbols ! nat (bigram_right b))) symbols
         \<and> i = nat (sym_next (symbols ! nat (bigram_right b)))
      then bigram_left b else sym_prev (symbols ! i))"
  using assms
  by (simp add: spm_apply_merge_def Let_def index_out_of_range_def nth_list_update)

lemma sym_text_ptr_spm_apply_merge:
  assumes "\<not> index_out_of_range (bigram_left b) symbols"
    and "\<not> index_out_of_range (bigram_right b) symbols"
    and "i < length symbols"
  shows "sym_text_ptr (spm_apply_merge symbols b ! i) = sym_text_ptr (symbols ! i)"
  using assms
  by (simp add: spm_apply_merge_def Let_def index_out_of_range_def nth_list_update)

lemma try_add_cand_ok:
  assumes q: "\<forall>c \<in> set q. cand_ok v text symbols c"
    and lr: "\<not> index_out_of_range l symbols \<Longrightarrow> \<not> index_out_of_range r symbols \<Longrightarrow>
      nat l \<in> spm_alive symbols \<Longrightarrow> nat r \<in> spm_alive symbols \<Longrightarrow>
      l < r \<and> sym_next (symbols ! nat l) = r"
  shows "\<forall>c \<in> set (try_add_bigram_spm v text symbols q l r). cand_ok v text symbols c"
proof (cases "l = - 1 \<or> r = - 1 \<or> index_out_of_range l symbols \<or> index_out_of_range r symbols
    \<or> sym_n (symbols ! nat l) = 0 \<or> sym_n (symbols ! nat r) = 0")
  case True
  then have "try_add_bigram_spm v text symbols q l r = q"
    by (auto simp: try_add_bigram_spm_def Let_def)
  with q show ?thesis by simp
next
  case False
  then have io: "\<not> index_out_of_range l symbols" "\<not> index_out_of_range r symbols"
    and al: "nat l \<in> spm_alive symbols" "nat r \<in> spm_alive symbols"
    by (auto simp: spm_alive_def index_out_of_range_def)
  note ok = lr [OF io al]
  let ?piece = "take (sym_n (symbols ! nat l) + sym_n (symbols ! nat r))
      (drop (sym_text_ptr (symbols ! nat l)) text)"
  show ?thesis
  proof (cases "map_of (token_to_id v) ?piece")
    case None
    with False have "try_add_bigram_spm v text symbols q l r = q"
      by (simp add: try_add_bigram_spm_def Let_def)
    with q show ?thesis by simp
  next
    case (Some i)
    have t: "take (length ?piece) (drop (sym_text_ptr (symbols ! nat l)) text) = ?piece"
      by (simp add: min_def)
    have "cand_ok v text symbols
        \<lparr>bigram_left = l, bigram_right = r, bigram_score = s, bigram_size = length ?piece\<rparr>" for s
      unfolding cand_ok_def using ok Some by (simp only: SanaSpmBigram.simps t) auto
    with q False Some show ?thesis
      by (auto simp: try_add_bigram_spm_def Let_def set_queue_push)
  qed
qed

lemma cand_ok_merge:
  assumes c: "cand_ok v text symbols c"
    and L: "L \<in> spm_alive symbols" and nL: "sym_next (symbols ! L) = int R"
    and len: "length symbols' = length symbols"
    and ptr: "\<And>i. i < length symbols \<Longrightarrow> sym_text_ptr (symbols' ! i) = sym_text_ptr (symbols ! i)"
    and alive': "spm_alive symbols' = spm_alive symbols - {R}"
    and next': "\<And>i. i < length symbols \<Longrightarrow> sym_next (symbols' ! i) =
          (if i = L then sym_next (symbols ! R) else sym_next (symbols ! i))"
  shows "cand_ok v text symbols' c"
proof -
  have 1: "bigram_left c < bigram_right c" using c by (simp add: cand_ok_def)
  have 2: "take (bigram_size c) (drop (sym_text_ptr (symbols' ! nat (bigram_left c))) text)
      \<in> dom (map_of (token_to_id v))" if "\<not> index_out_of_range (bigram_left c) symbols'"
  proof -
    from that len have o: "\<not> index_out_of_range (bigram_left c) symbols"
      by (simp add: index_out_of_range_def)
    then have "nat (bigram_left c) < length symbols" by (simp add: index_out_of_range_def)
    from ptr [OF this] c o show ?thesis by (simp add: cand_ok_def)
  qed
  have 3: "sym_next (symbols' ! nat (bigram_left c)) = bigram_right c"
    if p: "0 \<le> bigram_left c" and l: "nat (bigram_left c) \<in> spm_alive symbols'"
      and r: "nat (bigram_right c) \<in> spm_alive symbols'"
  proof -
    from l r have a: "nat (bigram_left c) \<in> spm_alive symbols"
      "nat (bigram_right c) \<in> spm_alive symbols" "nat (bigram_right c) \<noteq> R"
      by (simp_all add: alive')
    with c p have o: "sym_next (symbols ! nat (bigram_left c)) = bigram_right c"
      by (simp add: cand_ok_def)
    have "nat (bigram_left c) \<noteq> L"
    proof
      assume "nat (bigram_left c) = L"
      with o nL a(3) show False by simp
    qed
    moreover from a(1) have "nat (bigram_left c) < length symbols" by (simp add: spm_alive_def)
    ultimately show ?thesis using next' o by simp
  qed
  from 1 2 3 show ?thesis unfolding cand_ok_def by blast
qed

lemma spm_merge_step_inv:
  assumes inv: "spm_inv v text symbols0 (symbols, q)" and ne: "q \<noteq> []"
  shows "spm_inv v text symbols0 (spm_merge_step v text (symbols, q))"
proof -
  let ?b = "queue_top q"
  from inv have li: "links_inv symbols" and pi: "pieces_inv v text symbols0 symbols"
    and qi: "\<forall>c \<in> set q. cand_ok v text symbols c"
    by (simp_all add: spm_inv_def)
  from qi set_queue_pop have q1: "\<forall>c \<in> set (queue_pop q). cand_ok v text symbols c" by blast
  show ?thesis
  proof (cases "index_out_of_range (bigram_left ?b) symbols
      \<or> index_out_of_range (bigram_right ?b) symbols \<or> bigram_stale symbols ?b")
    case True
    from spm_merge_step_discard [OF this] li pi q1 show ?thesis
      by (simp add: spm_inv_def)
  next
    case False
    then have ol: "\<not> index_out_of_range (bigram_left ?b) symbols"
      and or: "\<not> index_out_of_range (bigram_right ?b) symbols"
      and ns: "\<not> bigram_stale symbols ?b" by simp_all
    define L where "L = nat (bigram_left ?b)"
    define R where "R = nat (bigram_right ?b)"
    define symbols' where "symbols' = spm_apply_merge symbols ?b"
    from ol or have l0: "0 \<le> bigram_left ?b" "int L = bigram_left ?b"
      and r0: "0 \<le> bigram_right ?b" "int R = bigram_right ?b"
      and lt: "L < length symbols" "R < length symbols"
      by (simp_all add: index_out_of_range_def L_def R_def)
    from ns lt have al: "L \<in> spm_alive symbols" "R \<in> spm_alive symbols"
      and sz: "sym_n (symbols ! L) + sym_n (symbols ! R) = bigram_size ?b"
      by (auto simp: bigram_stale_def Let_def spm_alive_def L_def R_def)
    from qi queue_top_mem [OF ne] have cb: "cand_ok v text symbols ?b" by blast
    then have "bigram_left ?b < bigram_right ?b" by (simp add: cand_ok_def)
    with l0(1) have LR: "L < R" unfolding L_def R_def by linarith
    have nL: "sym_next (symbols ! L) = int R"
    proof -
      from cb l0(1) al have "sym_next (symbols ! L) = bigram_right ?b"
        unfolding cand_ok_def L_def R_def by blast
      with r0(2) show ?thesis by simp
    qed
    have len: "length symbols' = length symbols" by (simp add: symbols'_def)
    have alive': "spm_alive symbols' = spm_alive symbols - {R}"
      unfolding symbols'_def R_def by (rule spm_alive_merge(1) [OF ol or ns])
    have n': "sym_n (symbols' ! i) =
        (if i = R then 0 else if i = L then sym_n (symbols ! L) + sym_n (symbols ! R)
         else sym_n (symbols ! i))" if "i < length symbols" for i
      unfolding symbols'_def L_def R_def by (rule sym_n_spm_apply_merge [OF ol or that])
    have next': "sym_next (symbols' ! i) =
        (if i = L then sym_next (symbols ! R) else sym_next (symbols ! i))"
      if "i < length symbols" for i
      unfolding symbols'_def L_def R_def by (rule sym_next_spm_apply_merge [OF ol or that])
    have prev': "sym_prev (symbols' ! i) =
        (if sym_next (symbols ! R) \<noteq> - 1
            \<and> \<not> index_out_of_range (sym_next (symbols ! R)) symbols
            \<and> i = nat (sym_next (symbols ! R))
         then int L else sym_prev (symbols ! i))" if "i < length symbols" for i
    proof -
      have "nat (bigram_left ?b) \<noteq> nat (bigram_right ?b)"
        using LR unfolding L_def R_def by linarith
      from sym_prev_spm_apply_merge [OF ol or this that] show ?thesis
        by (simp add: symbols'_def R_def l0(2))
    qed
    have ptr': "sym_text_ptr (symbols' ! i) = sym_text_ptr (symbols ! i)"
      if "i < length symbols" for i
      unfolding symbols'_def by (rule sym_text_ptr_spm_apply_merge [OF ol or that])
    have li': "links_inv symbols'"
      by (rule links_inv_merge [OF li al LR nL alive' next' prev'])
    have pi': "pieces_inv v text symbols0 symbols'"
    proof -
      from pi have p: "length symbols = length symbols0"
        "\<And>i. i < length symbols0 \<Longrightarrow> sym_text_ptr (symbols ! i) = sym_text_ptr (symbols0 ! i)"
        "\<And>i. i \<in> spm_alive symbols \<Longrightarrow> sym_piece text (symbols ! i) \<in> dom (map_of (token_to_id v))
            \<or> (sym_n (symbols ! i) = sym_n (symbols0 ! i)
               \<and> sym_next (symbols ! i) = sym_next (symbols0 ! i))"
        by (simp_all add: pieces_inv_def)
      have a: "sym_text_ptr (symbols' ! i) = sym_text_ptr (symbols0 ! i)"
        if "i < length symbols0" for i
        using that p(1,2) ptr' by simp
      have b: "sym_piece text (symbols' ! i) \<in> dom (map_of (token_to_id v))
            \<or> (sym_n (symbols' ! i) = sym_n (symbols0 ! i)
               \<and> sym_next (symbols' ! i) = sym_next (symbols0 ! i))"
        if "i \<in> spm_alive symbols'" for i
      proof (cases "i = L")
        case True
        from cb ol have "take (bigram_size ?b) (drop (sym_text_ptr (symbols ! L)) text)
            \<in> dom (map_of (token_to_id v))" by (simp add: cand_ok_def L_def)
        with True n' [OF lt(1)] ptr' [OF lt(1)] LR sz show ?thesis
          by (simp add: sym_piece_def)
      next
        case False
        from that have i: "i \<in> spm_alive symbols" "i \<noteq> R" by (simp_all add: alive')
        then have il: "i < length symbols" by (simp add: spm_alive_def)
        from False i n' [OF il] next' [OF il] ptr' [OF il] p(3) [OF i(1)] show ?thesis
          by (simp add: sym_piece_def)
      qed
      from p(1) len a b show ?thesis by (simp add: pieces_inv_def)
    qed
    have q1': "\<forall>c \<in> set (queue_pop q). cand_ok v text symbols' c"
      using q1 cand_ok_merge [OF _ al(1) nL len ptr' alive' next'] by blast
    let ?ls = "symbols' ! nat (bigram_left ?b)"
    let ?q2 = "try_add_bigram_spm v text symbols' (queue_pop q) (sym_prev ?ls) (bigram_left ?b)"
    let ?q3 = "try_add_bigram_spm v text symbols' ?q2 (bigram_left ?b) (sym_next ?ls)"
    note d' = links_invD [OF li']
    have La': "L \<in> spm_alive symbols'" using al LR by (simp add: alive')
    have q2': "\<forall>c \<in> set ?q2. cand_ok v text symbols' c"
    proof (rule try_add_cand_ok [OF q1'])
      assume "\<not> index_out_of_range (sym_prev ?ls) symbols'"
        and "nat (sym_prev ?ls) \<in> spm_alive symbols'"
      then have "0 \<le> sym_prev (symbols' ! L)" "nat (sym_prev (symbols' ! L)) \<in> spm_alive symbols'"
        by (simp_all add: index_out_of_range_def L_def)
      from d'(4) [OF La' this] l0
      show "sym_prev ?ls < bigram_left ?b \<and> sym_next (symbols' ! nat (sym_prev ?ls)) = bigram_left ?b"
        by (simp add: L_def)
    qed
    have q3': "\<forall>c \<in> set ?q3. cand_ok v text symbols' c"
    proof (rule try_add_cand_ok [OF q2'])
      assume "\<not> index_out_of_range (sym_next ?ls) symbols'"
      then have "sym_next (symbols' ! L) \<noteq> - 1" by (auto simp: index_out_of_range_def L_def)
      from d'(2) [OF La' this] l0
      show "bigram_left ?b < sym_next ?ls \<and> sym_next (symbols' ! nat (bigram_left ?b)) = sym_next ?ls"
        by (simp add: L_def)
    qed
    have "spm_merge_step v text (symbols, q) = (symbols', ?q3)"
      using False by (simp add: spm_merge_step_def Let_def symbols'_def)
    with li' pi' q3' show ?thesis by (simp add: spm_inv_def)
  qed
qed

lemma spm_merge_loop_inv:
  assumes "spm_inv v text symbols0 state"
  shows "spm_inv v text symbols0 (spm_merge_loop v text state, [])"
  using assms
proof (induction v "text" state rule: spm_merge_loop.induct)
  case (1 v t state)
  show ?case
  proof (cases "snd state = []")
    case True
    with "1.prems" show ?thesis
      by (simp add: spm_merge_loop.simps [of v t state] spm_inv_def)
  next
    case False
    have "spm_inv v t symbols0 (spm_merge_step v t state)"
      using spm_merge_step_inv [of v t symbols0 "fst state" "snd state"] "1.prems" False
      by simp
    from "1.IH" [OF False this] False show ?thesis
      by (simp add: spm_merge_loop.simps [of v t state])
  qed
qed

lemma spm_segment_ok:
  "idx = int (length symbols) \<Longrightarrow> seg_ok text symbols \<Longrightarrow>
   seg_ok text (spm_segment text idx offs symbols)"
proof (induction "text" idx offs symbols rule: spm_segment.induct)
  case (1 t idx offs symbols)
  show ?case
  proof (cases "offs < length t")
    case False
    then have "spm_segment t idx offs symbols = symbols"
      by (subst spm_segment.simps) simp
    with "1.prems"(2) show ?thesis by simp
  next
    case True
    let ?n = "utf8_len_char (drop offs t) (length t - offs)"
    show ?thesis
    proof (cases "?n = 0")
      case z: True
      with True have "spm_segment t idx offs symbols = spm_segment t idx (offs + 1) symbols"
        by (subst spm_segment.simps) simp
      with "1.IH"(1) [OF True refl z "1.prems"] show ?thesis by simp
    next
      case nz: False
      let ?s = "symbols @ [\<lparr>sym_prev = idx - 1, sym_next = - 1, sym_text_ptr = offs, sym_n = ?n\<rparr>]"
      have a: "idx + 1 = int (length ?s)" using "1.prems"(1) by simp
      have b: "seg_ok t ?s"
        using "1.prems" True nz by (auto simp: seg_ok_def nth_append less_Suc_eq)
      from True nz have "spm_segment t idx offs symbols = spm_segment t (idx + 1) (offs + ?n) ?s"
        by (subst spm_segment.simps) (simp add: Let_def)
      with "1.IH"(2) [OF True refl nz a b] show ?thesis by simp
    qed
  qed
qed

lemma spm_segment_pieces:
  "map (sym_piece text) (spm_segment text idx offs symbols)
     = map (sym_piece text) symbols @ utf8_split text offs"
proof (induction "text" idx offs symbols rule: spm_segment.induct)
  case (1 t idx offs symbols)
  show ?case
  proof (cases "offs < length t")
    case False
    then show ?thesis
      by (simp add: spm_segment.simps [of t idx offs] utf8_split.simps [of t offs])
  next
    case True
    let ?n = "utf8_len_char (drop offs t) (length t - offs)"
    show ?thesis
    proof (cases "?n = 0")
      case z: True
      from "1.IH"(1) [OF True refl z] True z show ?thesis
        by (simp add: spm_segment.simps [of t idx offs] utf8_split.simps [of t offs])
    next
      case nz: False
      from "1.IH"(2) [OF True refl nz] True nz show ?thesis
        by (simp add: spm_segment.simps [of t idx offs] utf8_split.simps [of t offs] Let_def
            sym_piece_def)
    qed
  qed
qed

lemma length_spm_link_next [simp]: "length (spm_link_next symbols) = length symbols"
  by (simp add: spm_link_next_def)

lemma nth_spm_link_next:
  "i < length symbols \<Longrightarrow>
   spm_link_next symbols ! i =
     (symbols ! i)\<lparr>sym_next := (if i < length symbols - 1 then int i + 1 else - 1)\<rparr>"
  by (simp add: spm_link_next_def)

lemma spm_alive_initial:
  "seg_ok text symbols \<Longrightarrow> spm_alive (spm_link_next symbols) = {0..<length symbols}"
  by (auto simp: spm_alive_def seg_ok_def nth_spm_link_next)

lemma links_inv_initial:
  assumes "seg_ok text symbols" and "symbols \<noteq> []"
  shows "links_inv (spm_link_next symbols)"
proof -
  note a = spm_alive_initial [OF assms(1)]
  have p: "sym_prev (spm_link_next symbols ! i) = int i - 1" if "i < length symbols" for i
    using that assms(1) by (simp add: nth_spm_link_next seg_ok_def)
  have n: "sym_next (spm_link_next symbols ! i) = (if i < length symbols - 1 then int i + 1 else - 1)"
    if "i < length symbols" for i
    using that by (simp add: nth_spm_link_next)
  show ?thesis
    unfolding links_inv_def a using assms(2)
    by (auto simp: p n split: if_splits)
qed

lemma pieces_inv_initial: "pieces_inv v text symbols symbols"
  by (simp add: pieces_inv_def)

lemma fold_try_add_cand_ok:
  assumes "\<forall>c \<in> set q. cand_ok v text symbols c"
    and "\<forall>i \<in> set is. \<not> index_out_of_range (int i + 1) symbols \<longrightarrow>
      sym_next (symbols ! i) = int i + 1"
  shows "\<forall>c \<in> set (fold (\<lambda>i q. try_add_bigram_spm v text symbols q (int i) (int i + 1)) is q).
    cand_ok v text symbols c"
  using assms
proof (induction "is" arbitrary: q)
  case Nil
  then show ?case by simp
next
  case (Cons i "is")
  have "\<forall>c \<in> set (try_add_bigram_spm v text symbols q (int i) (int i + 1)).
      cand_ok v text symbols c"
    by (rule try_add_cand_ok [OF Cons.prems(1)]) (use Cons.prems(2) in simp)
  from Cons.IH [OF this] Cons.prems(2) show ?case by simp
qed

lemma spm_inv_initial:
  assumes "seg_ok text symbols" and "symbols \<noteq> []"
  shows "spm_inv v text (spm_link_next symbols)
    (spm_link_next symbols, spm_initial_queue v text (spm_link_next symbols))"
proof -
  have "\<forall>c \<in> set (spm_initial_queue v text (spm_link_next symbols)).
      cand_ok v text (spm_link_next symbols) c"
    unfolding spm_initial_queue_def
    by (rule fold_try_add_cand_ok)
      (auto simp: index_out_of_range_def nth_spm_link_next)
  with links_inv_initial [OF assms] pieces_inv_initial show ?thesis
    by (simp add: spm_inv_def)
qed

lemma emit_codepoints_nonempty:
  assumes "s \<noteq> []" and "unk_token_id v \<noteq> - 1"
  shows "emit_codepoints v s 0 \<noteq> []"
proof -
  from assms(1) have "0 < length s" by simp
  then show ?thesis
    using assms(2)
    by (subst emit_codepoints.simps) (simp add: Let_def split: option.splits)
qed

lemma spm_emit_symbol_empty:
  assumes "0 < sym_n symbol" and "sym_text_ptr symbol < length text"
    and "spm_emit_symbol v text symbol = []"
  shows "map_of (token_to_id v) (sym_piece text symbol) = None \<and> unk_token_id v = - 1"
proof -
  from assms(1,2) have ne: "sym_piece text symbol \<noteq> []" by (simp add: sym_piece_def)
  from assms(1,3) have n: "map_of (token_to_id v) (sym_piece text symbol) = None"
    and e: "emit_codepoints v (sym_piece text symbol) 0 = []"
    by (auto simp: spm_emit_symbol_def sym_piece_def Let_def split: option.splits)
  from emit_codepoints_nonempty [OF ne] e have "unk_token_id v = - 1" by blast
  with n show ?thesis by simp
qed

lemma spm_emit_result:
  assumes li: "links_inv symbols" and pi: "pieces_inv v text symbols0 symbols"
    and s0n: "\<forall>i<length symbols0. sym_next (symbols0 ! i)
        = (if i + 1 < length symbols0 then int i + 1 else - 1)"
    and s0p: "\<forall>i<length symbols0. sym_text_ptr (symbols0 ! i) < length text"
    and i: "i \<in> spm_alive symbols"
  shows "\<exists>out. (\<forall>acc. spm_emit v text symbols (int i) acc = Some (acc @ out))
    \<and> (out = [] \<longrightarrow> unk_token_id v = - 1
          \<and> (\<forall>j. i \<le> j \<and> j < length symbols \<longrightarrow>
                map_of (token_to_id v) (sym_piece text (symbols0 ! j)) = None))"
  using i
proof (induction "length symbols - i" arbitrary: i rule: less_induct)
  case less
  note d = links_invD [OF li]
  from pi have len: "length symbols = length symbols0"
    and ptr: "\<And>i. i < length symbols0 \<Longrightarrow> sym_text_ptr (symbols ! i) = sym_text_ptr (symbols0 ! i)"
    and pc: "\<And>i. i \<in> spm_alive symbols \<Longrightarrow> sym_piece text (symbols ! i) \<in> dom (map_of (token_to_id v))
            \<or> (sym_n (symbols ! i) = sym_n (symbols0 ! i)
               \<and> sym_next (symbols ! i) = sym_next (symbols0 ! i))"
    by (simp_all add: pieces_inv_def)
  from less.prems have il: "i < length symbols" and ia: "0 < sym_n (symbols ! i)"
    by (simp_all add: spm_alive_def)
  let ?e = "spm_emit_symbol v text (symbols ! i)"
  let ?nx = "sym_next (symbols ! i)"
  have step: "spm_emit v text symbols (int i) acc = spm_emit v text symbols ?nx (acc @ ?e)"
    for acc
    using il by (subst spm_emit.simps) (simp add: index_out_of_range_def)
  have stop: "spm_emit v text symbols (- 1) acc = Some acc" for acc
    by (subst spm_emit.simps) simp
  have empty: "unk_token_id v = - 1 \<and> map_of (token_to_id v) (sym_piece text (symbols0 ! i)) = None
      \<and> ?nx = (if i + 1 < length symbols0 then int i + 1 else - 1)" if e: "?e = []"
  proof -
    from il len ptr s0p have "sym_text_ptr (symbols ! i) < length text" by simp
    from spm_emit_symbol_empty [OF ia this e]
    have n: "map_of (token_to_id v) (sym_piece text (symbols ! i)) = None" and u: "unk_token_id v = - 1"
      by simp_all
    from n pc [OF less.prems] have same: "sym_n (symbols ! i) = sym_n (symbols0 ! i)"
      "sym_next (symbols ! i) = sym_next (symbols0 ! i)" by auto
    from same(1) ptr il len have "sym_piece text (symbols ! i) = sym_piece text (symbols0 ! i)"
      by (simp add: sym_piece_def)
    with n u same(2) s0n il len show ?thesis by simp
  qed
  show ?case
  proof (cases "?nx = - 1")
    case True
    have "\<forall>acc. spm_emit v text symbols (int i) acc = Some (acc @ ?e)"
      by (simp add: step True stop)
    moreover have "unk_token_id v = - 1
          \<and> (\<forall>j. i \<le> j \<and> j < length symbols \<longrightarrow>
                map_of (token_to_id v) (sym_piece text (symbols0 ! j)) = None)" if e: "?e = []"
    proof -
      from empty [OF e] True have "\<not> i + 1 < length symbols0" by (auto split: if_splits)
      with len have "j = i" if "i \<le> j \<and> j < length symbols" for j using that by simp
      with empty [OF e] show ?thesis by blast
    qed
    ultimately show ?thesis by blast
  next
    case False
    from d(2) [OF less.prems False] have nx: "int i < ?nx" "nat ?nx \<in> spm_alive symbols"
      by simp_all
    then have "nat ?nx < length symbols" by (simp add: spm_alive_def)
    with nx(1) have m: "length symbols - nat ?nx < length symbols - i" by linarith
    from less.hyps [OF m nx(2)] obtain out'
      where o1: "\<forall>acc. spm_emit v text symbols (int (nat ?nx)) acc = Some (acc @ out')"
        and o2: "out' = [] \<longrightarrow> unk_token_id v = - 1
          \<and> (\<forall>j. nat ?nx \<le> j \<and> j < length symbols \<longrightarrow>
                map_of (token_to_id v) (sym_piece text (symbols0 ! j)) = None)"
      by blast
    from nx(1) have "int (nat ?nx) = ?nx" by simp
    with o1 have "\<forall>acc. spm_emit v text symbols (int i) acc = Some (acc @ (?e @ out'))"
      by (simp add: step)
    moreover have "unk_token_id v = - 1
          \<and> (\<forall>j. i \<le> j \<and> j < length symbols \<longrightarrow>
                map_of (token_to_id v) (sym_piece text (symbols0 ! j)) = None)"
      if e: "?e @ out' = []"
    proof -
      from e have e1: "?e = []" and e2: "out' = []" by simp_all
      from empty [OF e1] False have "?nx = int i + 1" by (auto split: if_splits)
      then have "nat ?nx = i + 1" by simp
      with o2 e2 have r: "\<forall>j. i + 1 \<le> j \<and> j < length symbols \<longrightarrow>
                map_of (token_to_id v) (sym_piece text (symbols0 ! j)) = None" by simp
      have "map_of (token_to_id v) (sym_piece text (symbols0 ! j)) = None"
        if "i \<le> j \<and> j < length symbols" for j
      proof (cases "j = i")
        case True
        with empty [OF e1] show ?thesis by simp
      next
        case False
        with that r show ?thesis by simp
      qed
      with empty [OF e1] show ?thesis by blast
    qed
    ultimately show ?thesis by blast
  qed
qed

lemma tokenize_spm_scored:
  assumes "id_to_score v \<noteq> []"
  shows "\<exists>out. tokenize_spm v text = Some out
    \<and> (out = [] \<longrightarrow> utf8_split text 0 = []
          \<or> (unk_token_id v = - 1 \<and> (\<forall>cp \<in> set (utf8_split text 0). map_of (token_to_id v) cp = None)))"
proof (cases "text = []")
  case True
  then show ?thesis by (simp add: tokenize_spm_def utf8_split.simps)
next
  case False
  define S where "S = spm_segment text 0 0 []"
  have ok: "seg_ok text S"
    unfolding S_def by (rule spm_segment_ok) (simp_all add: seg_ok_def)
  have pieces: "map (sym_piece text) S = utf8_split text 0"
    using spm_segment_pieces [of "text" 0 0 "[]"] by (simp add: S_def)
  show ?thesis
  proof (cases "S = []")
    case True
    with pieces have "utf8_split text 0 = []" by simp
    moreover from True False assms have "tokenize_spm v text = Some []"
      by (simp add: tokenize_spm_def S_def)
    ultimately show ?thesis by simp
  next
    case ne: False
    define symbols0 where "symbols0 = spm_link_next S"
    define symbols where "symbols = spm_merge_loop v text
      (symbols0, spm_initial_queue v text symbols0)"
    have t: "tokenize_spm v text = spm_emit v text symbols 0 []"
      using False assms ne
      by (simp add: tokenize_spm_def S_def [symmetric] Let_def symbols_def symbols0_def)
    have "spm_inv v text symbols0 (symbols, [])"
      unfolding symbols_def symbols0_def
      by (rule spm_merge_loop_inv) (rule spm_inv_initial [OF ok ne])
    then have li: "links_inv symbols" and pi: "pieces_inv v text symbols0 symbols"
      by (simp_all add: spm_inv_def)
    have len0: "length symbols0 = length S" by (simp add: symbols0_def)
    have s0n: "\<forall>i<length symbols0. sym_next (symbols0 ! i)
        = (if i + 1 < length symbols0 then int i + 1 else - 1)"
      by (auto simp: symbols0_def nth_spm_link_next)
    have s0p: "\<forall>i<length symbols0. sym_text_ptr (symbols0 ! i) < length text"
      using ok by (simp add: symbols0_def nth_spm_link_next seg_ok_def)
    have p0: "sym_piece text (symbols0 ! j) = utf8_split text 0 ! j" if "j < length S" for j
    proof -
      from that have "sym_piece text (symbols0 ! j) = sym_piece text (S ! j)"
        by (simp add: symbols0_def nth_spm_link_next sym_piece_def)
      also from that have "\<dots> = map (sym_piece text) S ! j" by simp
      finally show ?thesis by (simp add: pieces)
    qed
    from links_invD(1) [OF li] have a0: "0 \<in> spm_alive symbols" .
    from spm_emit_result [OF li pi s0n s0p a0] obtain out
      where o1: "\<forall>acc. spm_emit v text symbols (int 0) acc = Some (acc @ out)"
        and o2: "out = [] \<longrightarrow> unk_token_id v = - 1
          \<and> (\<forall>j. 0 \<le> j \<and> j < length symbols \<longrightarrow>
                map_of (token_to_id v) (sym_piece text (symbols0 ! j)) = None)"
      by blast
    from o1 have r: "tokenize_spm v text = Some out" by (simp add: t)
    have "unk_token_id v = - 1 \<and> (\<forall>cp \<in> set (utf8_split text 0). map_of (token_to_id v) cp = None)"
      if "out = []"
    proof -
      from pi have "length symbols = length S" by (simp add: pieces_inv_def len0)
      with o2 that p0 have u: "unk_token_id v = - 1"
        and "\<forall>j<length S. map_of (token_to_id v) (utf8_split text 0 ! j) = None" by simp_all
      moreover have "length (utf8_split text 0) = length S"
        using pieces by (metis length_map)
      ultimately show ?thesis by (auto simp: in_set_conv_nth)
    qed
    with r show ?thesis by blast
  qed
qed

section \<open>Non-empty output\<close>

lemma utf8_len_char_le: "utf8_len_char s m \<le> m"
  by (simp add: utf8_len_char_def Let_def)

lemma utf8_len_char_head:
  assumes "utf8_len_char (x # s) m = n" and "0 < n" and "n \<le> m'"
  shows "utf8_len_char (x # s') m' = n"
  using assms
  by (auto simp: utf8_len_char_def Let_def split: if_splits)

lemma utf8_split_codepoints: "c \<in> set (utf8_split s k) \<Longrightarrow> is_codepoint c"
proof (induction s k rule: utf8_split.induct)
  case (1 s k)
  show ?case
  proof (cases "k < length s")
    case False
    with "1.prems" show ?thesis by (simp add: utf8_split.simps [of s k])
  next
    case True
    let ?n = "utf8_len_char (drop k s) (length s - k)"
    show ?thesis
    proof (cases "?n = 0")
      case z: True
      from "1.prems" True z have "c \<in> set (utf8_split s (k + 1))"
        by (simp add: utf8_split.simps [of s k])
      from "1.IH"(1) [OF True refl z this] show ?thesis .
    next
      case nz: False
      from "1.prems" True nz
      consider "c = take ?n (drop k s)" | "c \<in> set (utf8_split s (k + ?n))"
        by (auto simp: utf8_split.simps [of s k] Let_def)
      then show ?thesis
      proof cases
        case 1
        from True obtain x s' where d: "drop k s = x # s'"
          by (cases "drop k s") simp_all
        have le: "?n \<le> length s - k" by (rule utf8_len_char_le)
        from nz have pos: "0 < ?n" by simp
        with 1 d obtain c' where c: "c = x # c'" by (cases ?n) simp_all
        from 1 le have lc: "length c = ?n" by simp
        have "utf8_len_char (c @ rest) (length c + length rest) = length c" for rest
          unfolding c append_Cons
          by (rule utf8_len_char_head [of x s' "length s - k"])
            (use d pos lc c in simp_all)
        with c show ?thesis by (simp add: is_codepoint_def)
      next
        case 2
        from "1.IH"(2) [OF True refl nz this] show ?thesis .
      qed
    qed
  qed
qed

lemma utf8_units_concat:
  assumes "\<forall>c \<in> set g. is_codepoint c"
  shows "utf8_units (pre @ concat g) (length pre) = map Some g"
  using assms
proof (induction g arbitrary: pre)
  case Nil
  then show ?case by (simp add: utf8_units.simps)
next
  case (Cons c g)
  from Cons.prems have c: "c \<noteq> []"
    and n: "utf8_len_char (c @ concat g) (length c + length (concat g)) = length c"
    by (simp_all add: is_codepoint_def)
  from Cons.IH [of "pre @ c"] Cons.prems
  have ih: "utf8_units (pre @ c @ concat g) (length pre + length c) = map Some g" by simp
  from c n ih show ?case
    by (subst utf8_units.simps) (simp add: Let_def)
qed

lemma emit_codepoints_concat:
  assumes "\<forall>c \<in> set g. is_codepoint c"
  shows "emit_codepoints v (concat g) 0 = concat (map (codepoint_ids v) g)"
  using utf8_units_concat [OF assms, of "[]"]
  by (simp add: emit_codepoints_units comp_def)

lemma codepoint_ids_empty:
  "codepoint_ids v c = [] \<longleftrightarrow> map_of (token_to_id v) c = None \<and> unk_token_id v = - 1"
  by (simp add: codepoint_ids_def split: option.splits)

lemma bpe_emit_piece_empty:
  assumes "\<forall>c \<in> set g. is_codepoint c" and "g \<noteq> []"
    and "bpe_emit_piece v (concat g) = []"
  shows "unk_token_id v = - 1 \<and> (\<forall>c \<in> set g. map_of (token_to_id v) c = None)"
proof -
  from assms(3) have "emit_codepoints v (concat g) 0 = []"
    by (simp add: bpe_emit_piece_def split: option.splits)
  then have "\<forall>c \<in> set g. codepoint_ids v c = []"
    by (simp add: emit_codepoints_concat [OF assms(1)])
  with assms(2) show ?thesis
    by (cases g) (auto simp: codepoint_ids_empty)
qed

lemma grouping_initial: "grouping cps cps"
proof -
  have "cps = map concat (map (\<lambda>c. [c]) cps)" by (simp add: comp_def)
  moreover have "concat (map (\<lambda>c. [c]) cps) = cps" by (induction cps) simp_all
  moreover have "[] \<notin> set (map (\<lambda>c. [c]) cps)" by auto
  ultimately show ?thesis unfolding grouping_def by blast
qed

lemma merge_adjacent_concat:
  "i + 1 < length xs \<Longrightarrow>
   concat (take i xs @ [xs ! i @ xs ! (i + 1)] @ drop (i + 2) xs) = concat xs"
proof -
  assume a: "i + 1 < length xs"
  then have "xs = take i xs @ xs ! i # xs ! (i + 1) # drop (i + 2) xs"
    by (metis Cons_nth_drop_Suc Suc_eq_plus1 add_2_eq_Suc' add_lessD1 id_take_nth_drop)
  then have "concat xs = concat (take i xs @ xs ! i # xs ! (i + 1) # drop (i + 2) xs)"
    by simp
  then show ?thesis by simp
qed

lemma grouping_merge:
  assumes "grouping cps toks" and "i + 1 < length toks"
  shows "grouping cps (take i toks @ [toks ! i @ toks ! (i + 1)] @ drop (i + 2) toks)"
proof -
  from assms(1) obtain groups where g: "toks = map concat groups" "concat groups = cps"
    "[] \<notin> set groups" unfolding grouping_def by blast
  from assms(2) g(1) have l: "i + 1 < length groups" by simp
  let ?g = "take i groups @ [groups ! i @ groups ! (i + 1)] @ drop (i + 2) groups"
  from l have "take i toks @ [toks ! i @ toks ! (i + 1)] @ drop (i + 2) toks = map concat ?g"
    by (simp add: g(1) take_map drop_map)
  moreover have "concat ?g = cps"
    using merge_adjacent_concat [OF l] g(2) by simp
  moreover have "[] \<notin> set ?g"
  proof -
    from l have "groups ! i \<in> set groups" by simp
    with g(3) have "groups ! i \<noteq> []" by metis
    moreover have "set (take i groups) \<subseteq> set groups" "set (drop (i + 2) groups) \<subseteq> set groups"
      by (simp_all add: set_take_subset set_drop_subset)
    ultimately show ?thesis using g(3) by auto
  qed
  ultimately show ?thesis unfolding grouping_def by blast
qed

lemma grouping_merge_once:
  assumes "grouping cps toks" and "bpe_merge_once ranks toks = Some toks'"
  shows "grouping cps toks'"
proof -
  let ?best = "bpe_scan ranks toks 0 (- 1, - 1)"
  from assms(2) have ne: "fst ?best \<noteq> - 1"
    by (auto simp: bpe_merge_once_def Let_def split: if_splits)
  have "0 \<le> snd ?best \<and> nat (snd ?best) < length toks - 1"
    by (rule bpe_scan_index) (use ne in simp_all)
  then have "nat (snd ?best) + 1 < length toks" by arith
  from grouping_merge [OF assms(1) this] assms(2) ne show ?thesis
    by (simp add: bpe_merge_once_def Let_def)
qed

lemma grouping_merge_loop:
  "grouping cps toks \<Longrightarrow> grouping cps (bpe_merge_loop ranks toks)"
proof (induction ranks toks rule: bpe_merge_loop.induct)
  case (1 ranks toks)
  show ?case
  proof (cases "length toks > 1")
    case False
    with "1.prems" show ?thesis by (simp add: bpe_merge_loop.simps [of ranks toks])
  next
    case True
    show ?thesis
    proof (cases "bpe_merge_once ranks toks")
      case None
      with True "1.prems" show ?thesis by (simp add: bpe_merge_loop.simps [of ranks toks])
    next
      case (Some toks')
      from "1.IH" [OF True Some grouping_merge_once [OF "1.prems" Some]] True Some
      show ?thesis by (simp add: bpe_merge_loop.simps [of ranks toks])
    qed
  qed
qed

lemma bpe_word_empty:
  assumes "bpe_word v w = []" and "w \<noteq> []"
  shows "map_of (token_to_id v) w = None
    \<and> (utf8_split w 0 = []
        \<or> (unk_token_id v = - 1 \<and> (\<forall>cp \<in> set (utf8_split w 0). map_of (token_to_id v) cp = None)))"
proof -
  from assms have n: "map_of (token_to_id v) w = None"
    by (auto simp: bpe_word_def split: option.splits)
  show ?thesis
  proof (cases "utf8_split w 0 = []")
    case True
    with n show ?thesis by simp
  next
    case False
    let ?cps = "utf8_split w 0"
    let ?toks = "bpe_merge_loop (map_of (bpe_ranks v)) ?cps"
    from assms n False have e: "concat (map (bpe_emit_piece v) ?toks) = []"
      by (simp add: bpe_word_def Let_def)
    from grouping_merge_loop [where ranks = "map_of (bpe_ranks v)", OF grouping_initial [of ?cps]]
    obtain groups where g: "?toks = map concat groups" "concat groups = ?cps"
      "[] \<notin> set groups" unfolding grouping_def by blast
    have cp: "\<forall>c \<in> set g'. is_codepoint c" if "g' \<in> set groups" for g'
    proof
      fix c assume "c \<in> set g'"
      with that g(2) have "c \<in> set ?cps" by (metis concat_map_singleton in_set_conv_decomp set_concat UN_I)
      then show "is_codepoint c" by (rule utf8_split_codepoints)
    qed
    have each: "unk_token_id v = - 1 \<and> (\<forall>c \<in> set g'. map_of (token_to_id v) c = None)"
      if "g' \<in> set groups" for g'
    proof -
      from that g(3) have "g' \<noteq> []" by metis
      moreover from e g(1) that have "bpe_emit_piece v (concat g') = []" by simp
      ultimately show ?thesis using bpe_emit_piece_empty [OF cp [OF that]] by blast
    qed
    from False g(2) obtain g0 where "g0 \<in> set groups" by (cases groups) auto
    with each have u: "unk_token_id v = - 1" by blast
    have "\<forall>c \<in> set ?cps. map_of (token_to_id v) c = None"
    proof
      fix c assume "c \<in> set ?cps"
      with g(2) obtain g' where "g' \<in> set groups" "c \<in> set g'" by (metis set_concat UN_E)
      with each show "map_of (token_to_id v) c = None" by blast
    qed
    with n u show ?thesis by simp
  qed
qed

lemma utf8_split_units: "set (utf8_split s k) = {c. Some c \<in> set (utf8_units s k)}"
proof (induction s k rule: utf8_split.induct)
  case (1 s k)
  show ?case
  proof (cases "k < length s")
    case False
    then show ?thesis by (simp add: utf8_split.simps [of s k] utf8_units.simps [of s k])
  next
    case True
    show ?thesis
    proof (cases "utf8_len_char (drop k s) (length s - k) = 0")
      case z: True
      from "1.IH"(1) [OF True refl z] True z show ?thesis
        by (simp add: utf8_split.simps [of s k] utf8_units.simps [of s k])
    next
      case nz: False
      from "1.IH"(2) [OF True refl nz] True nz show ?thesis
        by (auto simp: utf8_split.simps [of s k] utf8_units.simps [of s k] Let_def)
    qed
  qed
qed

lemma utf8_units_nonempty: "k < length s \<Longrightarrow> utf8_units s k \<noteq> []"
  by (subst utf8_units.simps) (simp add: Let_def)

lemma unit_ids_empty:
  "unit_ids v u = [] \<Longrightarrow>
   unk_token_id v = - 1 \<and> (\<forall>c. u = Some c \<longrightarrow> map_of (token_to_id v) c = None)"
  by (cases u) (auto simp: codepoint_ids_empty split: if_splits)

lemma emit_codepoints_empty:
  assumes "text \<noteq> []" and "emit_codepoints v text 0 = []"
  shows "unk_token_id v = - 1 \<and> every_codepoint_unmapped v text"
proof -
  from assms(2) have e: "\<forall>u \<in> set (utf8_units text 0). unit_ids v u = []"
    by (simp add: emit_codepoints_units)
  from assms(1) utf8_units_nonempty [of 0 "text"] obtain u where "u \<in> set (utf8_units text 0)"
    by (cases "utf8_units text 0") auto
  with e unit_ids_empty have "unk_token_id v = - 1" by blast
  moreover have "map_of (token_to_id v) cp = None" if "cp \<in> set (utf8_split text 0)" for cp
  proof -
    from that have "Some cp \<in> set (utf8_units text 0)" by (simp add: utf8_split_units)
    with e unit_ids_empty show ?thesis by blast
  qed
  ultimately show ?thesis by (simp add: every_codepoint_unmapped_def)
qed

lemma tokenize_spm_returns: "\<exists>out. tokenize_spm v text = Some out"
proof (cases "id_to_score v = []")
  case True
  then show ?thesis by (simp add: tokenize_spm_def)
next
  case False
  from tokenize_spm_scored [OF this] show ?thesis by blast
qed

lemma tokenize_plain:
  "tokenize regex v text False False =
     (if type v = SPM then tokenize_spm v text else tokenize_bpe regex v text)"
  by (simp add: tokenize_def split: option.splits)

text \<open>
  The facade returns whenever the matcher is not run or returns: the merge loop and the
  output walk of the SPM path always end.
\<close>

lemma tokenize_returns:
  assumes "type v = SPM \<or> text = [] \<or> (bpe_ranks v = [] \<and> length (id_to_token v) < 256)
    \<or> regex text \<noteq> None"
  shows "\<exists>out. tokenize regex v text add_bos add_eos = Some out"
proof (cases "type v")
  case SPM
  with tokenize_spm_returns [of v "text"] show ?thesis by (auto simp: tokenize_def)
next
  case BPE
  with assms show ?thesis by (auto simp: tokenize_def tokenize_bpe_def)
qed

text \<open>
  Claim C4 as stated fails. On an SPM store without scores whose unknown id is unset, the
  text \<open>a\<close>, whose one code point is mapped, gives the empty output. On an SPM store
  with scores whose unknown id is set, a text of one byte that does not decode gives the
  empty output.
\<close>

theorem tokenize_nonempty_counterexample:
  "''a'' \<noteq> [] \<and> utf8_split ''a'' 0 = [''a''] \<and> map_of (token_to_id store_no_scores) ''a'' = Some 0
   \<and> \<not> every_codepoint_unmapped store_no_scores ''a''
   \<and> tokenize matches_nothing store_no_scores ''a'' False False = Some []
   \<and> [CHR 0x80] \<noteq> [] \<and> unk_token_id store_scored \<noteq> - 1
   \<and> tokenize matches_nothing store_scored [CHR 0x80] False False = Some []"
  by (simp add: every_codepoint_unmapped_def utf8_split.simps utf8_len_char_def tokenize_def
      tokenize_spm_def store_no_scores_def store_scored_def SanaVocab_default_def
      spm_segment.simps)

text \<open>
  Claim C4, amended. For every store and every non-empty text, \<open>tokenize(text, false,
  false)\<close> returns a token sequence, except on a BPE store past the bootstrap shortcut
  when the run of \<^verbatim>\<open>std::regex\<close> over the text fails: then the call returns nothing.
  Where it returns, the sequence is non-empty except in these cases: on an SPM store
  without scores, when the unknown id is unset; on an SPM store with scores, when no byte
  of the text decodes to a code point, or every code point is unmapped and the unknown id
  is unset; on a BPE store that takes the bootstrap shortcut, when every code point is
  unmapped and the unknown id is unset; on any other BPE store, when no pre-token is a
  vocabulary entry and each pre-token either has no byte that decodes or has only unmapped
  code points while the unknown id is unset.
\<close>

theorem tokenize_nonempty:
  assumes "text \<noteq> []"
  shows "(tokenize regex v text False False = None \<longleftrightarrow>
            type v = BPE \<and> \<not> (bpe_ranks v = [] \<and> length (id_to_token v) < 256)
            \<and> regex text = None)
    \<and> (tokenize regex v text False False = Some [] \<longrightarrow>
         (if type v = SPM then
            (if id_to_score v = [] then unk_token_id v = - 1
             else utf8_split text 0 = []
                  \<or> (unk_token_id v = - 1 \<and> every_codepoint_unmapped v text))
          else if bpe_ranks v = [] \<and> length (id_to_token v) < 256
          then unk_token_id v = - 1 \<and> every_codepoint_unmapped v text
          else (\<exists>matches. regex text = Some matches
                 \<and> (\<forall>w \<in> set (bpe_pre_tokenize_gpt2 matches text).
                       map_of (token_to_id v) w = None
                       \<and> (utf8_split w 0 = []
                           \<or> (unk_token_id v = - 1 \<and> every_codepoint_unmapped v w))))))"
proof (cases "type v")
  case SPM
  then have t: "tokenize regex v text False False = tokenize_spm v text"
    by (simp add: tokenize_plain)
  show ?thesis
  proof (cases "id_to_score v = []")
    case True
    with SPM assms show ?thesis
      by (simp add: t tokenize_spm_def)
  next
    case False
    from tokenize_spm_scored [OF False, of "text"] obtain out
      where "tokenize_spm v text = Some out"
        and "out = [] \<longrightarrow> utf8_split text 0 = []
          \<or> (unk_token_id v = - 1 \<and> every_codepoint_unmapped v text)"
      unfolding every_codepoint_unmapped_def by blast
    with SPM False show ?thesis by (simp add: t)
  qed
next
  case BPE
  then have t: "tokenize regex v text False False = tokenize_bpe regex v text"
    by (simp add: tokenize_plain)
  show ?thesis
  proof (cases "bpe_ranks v = [] \<and> length (id_to_token v) < 256")
    case True
    with assms have "tokenize_bpe regex v text = Some (emit_codepoints v text 0)"
      by (simp add: tokenize_bpe_def)
    with emit_codepoints_empty [OF assms, of v] BPE True show ?thesis by (simp add: t)
  next
    case False
    show ?thesis
    proof (cases "regex text")
      case None
      with False assms have "tokenize_bpe regex v text = None"
        by (auto simp: tokenize_bpe_def)
      with BPE False None show ?thesis by (simp add: t)
    next
      case (Some matches)
      let ?words = "bpe_pre_tokenize_gpt2 matches text"
      from False assms Some
      have b: "tokenize_bpe regex v text = Some (concat (map (bpe_word v) ?words))"
        by (auto simp: tokenize_bpe_def)
      have "\<forall>w \<in> set ?words. map_of (token_to_id v) w = None
          \<and> (utf8_split w 0 = [] \<or> (unk_token_id v = - 1 \<and> every_codepoint_unmapped v w))"
        if "tokenize_bpe regex v text = Some []"
      proof
        fix w assume w: "w \<in> set ?words"
        with that b have "bpe_word v w = []" by simp
        from bpe_word_empty [OF this bpe_pre_tokenize_gpt2_nonempty [OF w]]
        show "map_of (token_to_id v) w = None
          \<and> (utf8_split w 0 = [] \<or> (unk_token_id v = - 1 \<and> every_codepoint_unmapped v w))"
          by (simp add: every_codepoint_unmapped_def)
      qed
      with BPE False Some b show ?thesis by (auto simp: t)
    qed
  qed
qed

lemma utf8_split_abcd: "utf8_split ''abcd'' 0 = [''a'', ''b'', ''c'', ''d'']"
  by (simp add: utf8_split.simps utf8_len_char_def)

text \<open>
  The theorem at three inputs: an SPM store with scores and a text of four symbols, a BPE
  store with merge ranks whose matcher returns, and the same store with a matcher that
  fails.
\<close>

theorem tokenize_nonempty_witness:
  "''abcd'' \<noteq> [] \<and> ''hello'' \<noteq> []
   \<and> tokenize matches_nothing store_tie ''abcd'' False False \<noteq> None
   \<and> tokenize matches_nothing store_tie ''abcd'' False False \<noteq> Some []
   \<and> tokenize matches_whole store_hello ''hello'' False False \<noteq> None
   \<and> tokenize matches_whole store_hello ''hello'' False False \<noteq> Some []
   \<and> tokenize matches_fails store_hello ''hello'' False False = None"
proof -
  have 1: "''abcd'' \<noteq> []" and 2: "''hello'' \<noteq> []" by simp_all
  note spm = tokenize_nonempty [OF 1, of matches_nothing store_tie]
  note bpe = tokenize_nonempty [OF 2, of matches_whole store_hello]
  note bad = tokenize_nonempty [OF 2, of matches_fails store_hello]
  have s: "type store_tie = SPM" "id_to_score store_tie \<noteq> []"
    "\<not> every_codepoint_unmapped store_tie ''abcd''"
    by (simp_all add: store_tie_def SanaVocab_default_def every_codepoint_unmapped_def
        utf8_split_abcd)
  have h: "type store_hello = BPE" "bpe_ranks store_hello \<noteq> []"
    "map_of (token_to_id store_hello) ''hello'' = Some 6"
    by (simp_all add: store_hello_def SanaVocab_default_def)
  from spm s have a: "tokenize matches_nothing store_tie ''abcd'' False False \<noteq> None"
    "tokenize matches_nothing store_tie ''abcd'' False False \<noteq> Some []"
    by (auto simp: utf8_split_abcd)
  from bpe h have b: "tokenize matches_whole store_hello ''hello'' False False \<noteq> None"
    "tokenize matches_whole store_hello ''hello'' False False \<noteq> Some []"
    by (auto simp: matches_whole_def pre_tokenize_hello)
  from bad h have c: "tokenize matches_fails store_hello ''hello'' False False = None"
    by (simp add: matches_fails_def)
  from a b c show ?thesis by simp
qed

end
